theory Spec2Isabelle
  imports Main "HOL-Library.Word"
begin

section \<open>Framing codec (protocol.js)\<close>

text \<open>
  A Node \<open>Buffer\<close> is a list of bytes. The functions of protocol.js test their
  argument with \<open>Buffer.isBuffer\<close>, so an argument is a JavaScript value that
  either is a buffer or is not. Message types are JavaScript numbers; the integers
  stand for them here.
\<close>

type_synonym byte = "8 word"
type_synonym bytes = "byte list"

datatype js_value = Buffer bytes | NotBuffer

datatype js_error =
    TypeError          \<comment> \<open>\<open>payload must be a Buffer\<close> / \<open>chunk must be a Buffer\<close>\<close>
  | RangeError         \<comment> \<open>\<open>invalid messageType\<close>\<close>
  | ERR_OUT_OF_RANGE   \<comment> \<open>\<open>writeUInt32BE\<close> of a value above \<open>2^32 - 1\<close>\<close>

definition REQUEST :: int where
  "REQUEST = 0"

definition RESPONSE :: int where
  "RESPONSE = 1"

definition HEADER_LENGTH :: nat where
  "HEADER_LENGTH = 5"

text \<open>\<open>buf.writeUInt32BE(n, 0)\<close> on a 4-byte area: most significant byte first.\<close>

definition writeUInt32BE :: "nat \<Rightarrow> bytes" where
  "writeUInt32BE n =
     [of_nat (n div 16777216), of_nat (n div 65536), of_nat (n div 256), of_nat n]"

definition writeUInt8 :: "int \<Rightarrow> bytes" where
  "writeUInt8 v = [of_int v]"

text \<open>
  \<open>buf.readUInt32BE(off)\<close> and \<open>buf.readUInt8(off)\<close>. The decoder calls them
  only under the guard \<open>buf.length >= HEADER_LENGTH\<close>, at offsets 0 and 4.
\<close>

definition readUInt32BE :: "bytes \<Rightarrow> nat \<Rightarrow> nat" where
  "readUInt32BE buf off =
     unat (buf ! off) * 16777216 + unat (buf ! (off + 1)) * 65536
       + unat (buf ! (off + 2)) * 256 + unat (buf ! (off + 3))"

definition readUInt8 :: "bytes \<Rightarrow> nat \<Rightarrow> int" where
  "readUInt8 buf off = uint (buf ! off)"

text \<open>\<open>buf.subarray(from, to)\<close> and \<open>buf.subarray(from)\<close>.\<close>

definition subarray :: "bytes \<Rightarrow> nat \<Rightarrow> nat \<Rightarrow> bytes" where
  "subarray buf from to = take (to - from) (drop from buf)"

definition subarray_from :: "bytes \<Rightarrow> nat \<Rightarrow> bytes" where
  "subarray_from buf from = drop from buf"

text \<open>
  \<open>encodeMessage(messageType, payload)\<close>: the two argument checks in the order of
  the source, then the header write. \<open>writeUInt32BE\<close> throws on a length that does
  not fit 32 bits.
\<close>

definition encodeMessage :: "int \<Rightarrow> js_value \<Rightarrow> js_error + bytes" where
  "encodeMessage messageType payload =
     (case payload of
        NotBuffer \<Rightarrow> Inl TypeError
      | Buffer p \<Rightarrow>
          if messageType \<noteq> REQUEST \<and> messageType \<noteq> RESPONSE then Inl RangeError
          else if length p \<ge> 4294967296 then Inl ERR_OUT_OF_RANGE
          else Inr (writeUInt32BE (length p) @ writeUInt8 messageType @ p))"

datatype message = Message (mtype: int) (mpayload: bytes)

record FrameDecoder =
  buffer :: bytes
  closed :: bool

definition FrameDecoder_new :: FrameDecoder where
  "FrameDecoder_new = \<lparr>buffer = [], closed = False\<rparr>"

text \<open>
  \<open>_parseAvailableFrames\<close>: the \<open>while\<close> loop over \<open>this._buffer\<close>. The result is
  the list of messages emitted, in order, and the buffer left over.
\<close>

function parseAvailableFrames :: "bytes \<Rightarrow> message list \<times> bytes" where
  "parseAvailableFrames buf =
     (if length buf \<ge> HEADER_LENGTH then
        (if length buf < HEADER_LENGTH + readUInt32BE buf 0 then ([], buf)
         else
           (case parseAvailableFrames
                   (if length buf = HEADER_LENGTH + readUInt32BE buf 0 then []
                    else subarray_from buf (HEADER_LENGTH + readUInt32BE buf 0)) of
              (ms, rest) \<Rightarrow>
                (Message (readUInt8 buf 4)
                   (subarray buf HEADER_LENGTH (HEADER_LENGTH + readUInt32BE buf 0)) # ms,
                 rest)))
      else ([], buf))"
  by pat_completeness auto
termination
  by (relation "measure length") (auto simp: HEADER_LENGTH_def subarray_from_def)

declare parseAvailableFrames.simps [simp del]

text \<open>
  \<open>push(chunk)\<close>: returns silently on a closed decoder, before the argument check.
  The result is the decoder after the call and the messages emitted during it.
\<close>

definition push :: "js_value \<Rightarrow> FrameDecoder \<Rightarrow> js_error + (FrameDecoder \<times> message list)" where
  "push chunk d =
     (if closed d then Inr (d, [])
      else case chunk of
        NotBuffer \<Rightarrow> Inl TypeError
      | Buffer c \<Rightarrow>
          (case parseAvailableFrames (if length (buffer d) = 0 then c else buffer d @ c) of
             (ms, rest) \<Rightarrow> Inr (d\<lparr>buffer := rest\<rparr>, ms)))"

definition close :: "FrameDecoder \<Rightarrow> FrameDecoder" where
  "close d = d\<lparr>closed := True, buffer := []\<rparr>"

text \<open>Feeding a list of chunks in order, as the socket's \<open>data\<close> events do.\<close>

fun push_all :: "js_value list \<Rightarrow> FrameDecoder \<Rightarrow> js_error + (FrameDecoder \<times> message list)" where
  "push_all [] d = Inr (d, [])"
| "push_all (c # cs) d =
     (case push c d of
        Inl e \<Rightarrow> Inl e
      | Inr (d', ms) \<Rightarrow>
          (case push_all cs d' of
             Inl e \<Rightarrow> Inl e
           | Inr (d'', ms') \<Rightarrow> Inr (d'', ms @ ms')))"


section \<open>Serialized sender (protocol.js, \<open>MessageSendQueue\<close>)\<close>

text \<open>
  The class has three fields. An item of the queue is the pair of arguments of
  \<open>enqueue\<close>; its \<open>resolve\<close> and \<open>reject\<close> callbacks are recorded, when called,
  in \<open>outcomes\<close>.
\<close>

type_synonym item = "int \<times> js_value"

record MessageSendQueue =
  socket :: nat
  queue :: "item list"
  isSending :: bool

definition MessageSendQueue_new :: "nat \<Rightarrow> MessageSendQueue" where
  "MessageSendQueue_new sock = \<lparr>socket = sock, queue = [], isSending = False\<rparr>"

text \<open>
  What surrounds the object while it runs: \<open>awaiting\<close> holds one entry for every
  invocation of \<open>_dequeueAndSend\<close> that is suspended at
  \<open>await sendMessage(...)\<close>, that is, for every \<open>sendMessage\<close> promise not yet
  settled; \<open>written\<close> lists the arguments of the calls \<open>socket.write(framed, ...)\<close>
  in call order (the socket transmits them in that order);
  \<open>outcomes\<close> lists the calls of \<open>item.resolve()\<close> and \<open>item.reject(err)\<close>.
\<close>

datatype outcome = Resolved | Rejected_by_encode js_error | Rejected_by_socket

record sender = MessageSendQueue +
  awaiting :: "item list"
  written :: "bytes list"
  outcomes :: "(item \<times> outcome) list"

definition sender_new :: "nat \<Rightarrow> sender" where
  "sender_new sock =
     \<lparr>socket = sock, queue = [], isSending = False,
      awaiting = [], written = [], outcomes = []\<rparr>"

text \<open>
  The \<open>while\<close> loop of \<open>_dequeueAndSend\<close>, from a loop test up to the next
  suspension. \<open>sendMessage\<close> calls \<open>encodeMessage\<close> first: when that throws, the
  \<open>catch\<close> rejects the item and the loop goes on at once; otherwise
  \<open>socket.write\<close> is called and the function is suspended on the promise. When the
  queue is empty the \<open>finally\<close> clears \<open>isSending\<close>.
\<close>

function send_loop :: "sender \<Rightarrow> sender" where
  "send_loop s =
     (case queue s of
        [] \<Rightarrow> s\<lparr>isSending := False\<rparr>
      | it # rest \<Rightarrow>
          (case encodeMessage (fst it) (snd it) of
             Inl e \<Rightarrow>
               send_loop (s\<lparr>queue := rest, outcomes := outcomes s @ [(it, Rejected_by_encode e)]\<rparr>)
           | Inr framed \<Rightarrow>
               s\<lparr>queue := rest, written := written s @ [framed], awaiting := awaiting s @ [it]\<rparr>))"
  by pat_completeness auto
termination
  by (relation "measure (\<lambda>s. length (queue s))") auto

declare send_loop.simps [simp del]

definition dequeueAndSend :: "sender \<Rightarrow> sender" where
  "dequeueAndSend s = (if isSending s then s else send_loop (s\<lparr>isSending := True\<rparr>))"

definition enqueue :: "int \<Rightarrow> js_value \<Rightarrow> sender \<Rightarrow> sender" where
  "enqueue type payload s =
     (if \<not> isSending s then dequeueAndSend (s\<lparr>queue := queue s @ [(type, payload)]\<rparr>)
      else s\<lparr>queue := queue s @ [(type, payload)]\<rparr>)"

text \<open>
  The \<open>i\<close>-th pending \<open>sendMessage\<close> promise settles (resolved when \<open>ok\<close>,
  rejected by a socket error or close otherwise): the invocation suspended on it
  settles its item and returns to the loop test.
\<close>

definition send_settled :: "nat \<Rightarrow> bool \<Rightarrow> sender \<Rightarrow> sender" where
  "send_settled i ok s =
     (if i < length (awaiting s) then
        send_loop (s\<lparr>awaiting := take i (awaiting s) @ drop (Suc i) (awaiting s),
                     outcomes := outcomes s @
                       [(awaiting s ! i, if ok then Resolved else Rejected_by_socket)]\<rparr>)
      else s)"

datatype sender_event = Enqueue int js_value | Settled nat bool

fun sender_step :: "sender \<Rightarrow> sender_event \<Rightarrow> sender" where
  "sender_step s (Enqueue type payload) = enqueue type payload s"
| "sender_step s (Settled i ok) = send_settled i ok s"

definition sender_run :: "nat \<Rightarrow> sender_event list \<Rightarrow> sender" where
  "sender_run sock evs = foldl sender_step (sender_new sock) evs"

text \<open>The items enqueued by a run, and the frames of the items that encode.\<close>

fun enqueued :: "sender_event list \<Rightarrow> item list" where
  "enqueued [] = []"
| "enqueued (Enqueue type payload # evs) = (type, payload) # enqueued evs"
| "enqueued (Settled i ok # evs) = enqueued evs"

fun frames_of :: "item list \<Rightarrow> bytes list" where
  "frames_of [] = []"
| "frames_of (it # its) =
     (case encodeMessage (fst it) (snd it) of
        Inl e \<Rightarrow> frames_of its
      | Inr framed \<Rightarrow> framed # frames_of its)"

text \<open>The invariant of the sender, relative to the items enqueued so far.\<close>

definition sender_inv :: "item list \<Rightarrow> sender \<Rightarrow> bool" where
  "sender_inv E s \<longleftrightarrow>
     length (awaiting s) \<le> 1
     \<and> isSending s = (awaiting s \<noteq> [])
     \<and> (isSending s \<or> queue s = [])
     \<and> written s @ frames_of (queue s) = frames_of E"


section \<open>Link manager of the ship (ship_proxy.js, \<open>OffshoreConnection\<close>)\<close>

text \<open>
  The fields of the class. Sockets are named by the order of the
  \<open>net.createConnection\<close> calls; \<open>oc_socket\<close> and \<open>oc_queue\<close> are the fields
  \<open>socket\<close> and \<open>queue\<close>, \<open>null\<close> until \<open>_connect\<close> has run.
\<close>

record OffshoreConnection =
  host :: string
  port :: nat
  oc_socket :: "nat option"
  decoder :: FrameDecoder
  oc_queue :: "MessageSendQueue option"
  inTunnel :: bool

text \<open>
  Around the object: the number of sockets created so far (each of them carries the
  four handlers \<open>_connect\<close> registers), the pending \<open>setTimeout\<close> callbacks with
  their delays in milliseconds, the \<open>message\<close> events of the decoder and the events
  the connection itself has emitted.
\<close>

datatype connection_signal = Connect_signal | Error_signal | Close_signal

record link = OffshoreConnection +
  sockets_created :: nat
  timers :: "nat list"
  emitted :: "message list"
  signals :: "connection_signal list"

definition connect :: "link \<Rightarrow> link" where
  "connect c =
     c\<lparr>oc_socket := Some (sockets_created c),
       oc_queue := Some (MessageSendQueue_new (sockets_created c)),
       sockets_created := Suc (sockets_created c)\<rparr>"

definition OffshoreConnection_new :: "string \<Rightarrow> nat \<Rightarrow> link" where
  "OffshoreConnection_new h p =
     connect \<lparr>host = h, port = p, oc_socket = None, decoder = FrameDecoder_new,
              oc_queue = None, inTunnel = False,
              sockets_created = 0, timers = [], emitted = [], signals = []\<rparr>"

text \<open>
  The handlers of a socket, and the timer callback. A socket delivers buffers, so the
  chunk of a \<open>data\<close> event is a buffer. The \<open>close\<close> handler emits \<open>close\<close> and
  arms a timer of 1000 ms whose callback is \<open>_connect\<close>.
\<close>

datatype link_event =
    Sock_connect nat
  | Sock_data nat bytes
  | Sock_error nat
  | Sock_close nat
  | Timer_fired

fun link_step :: "link \<Rightarrow> link_event \<Rightarrow> link" where
  "link_step c (Sock_connect n) =
     (if n < sockets_created c then c\<lparr>signals := signals c @ [Connect_signal]\<rparr> else c)"
| "link_step c (Sock_data n chunk) =
     (if n < sockets_created c then
        (case push (Buffer chunk) (decoder c) of
           Inl e \<Rightarrow> c
         | Inr (d, ms) \<Rightarrow> c\<lparr>decoder := d, emitted := emitted c @ ms\<rparr>)
      else c)"
| "link_step c (Sock_error n) =
     (if n < sockets_created c then c\<lparr>signals := signals c @ [Error_signal]\<rparr> else c)"
| "link_step c (Sock_close n) =
     (if n < sockets_created c
      then c\<lparr>signals := signals c @ [Close_signal], timers := timers c @ [1000]\<rparr>
      else c)"
| "link_step c Timer_fired =
     (case timers c of
        [] \<Rightarrow> c
      | t # ts \<Rightarrow> connect (c\<lparr>timers := ts\<rparr>))"

definition link_run :: "link \<Rightarrow> link_event list \<Rightarrow> link" where
  "link_run c evs = foldl link_step c evs"

section \<open>Ship transaction scheduler (ship_proxy.js)\<close>

text \<open>
  The ship holds the connection \<open>offshore\<close> and the \<open>RequestQueue\<close> with its
  fields \<open>queue\<close> (here \<open>rq_queue\<close>) and \<open>processing\<close>. An item of the queue is
  the client's response object \<open>res\<close>, named by the number of requests accepted
  before it (every request has a response object of its own), with the serialized
  request \<open>rawRequest\<close>.

  An \<open>async\<close> function runs until its next \<open>await\<close> and is resumed by an
  event. \<open>tasks\<close> lists the suspended functions and the registered listener sets,
  in the order in which they reached their present state:
  \<^item> \<open>Worker_send\<close>: \<open>processNext\<close> at \<open>await offshore.sendRequest(rawRequest)\<close>;
  \<^item> \<open>Worker_wait\<close>: \<open>processNext\<close> at \<open>await waitForSingleResponse()\<close>, its
    \<open>message\<close> and \<open>error\<close> listeners registered;
  \<^item> \<open>Connect_send\<close>, \<open>Connect_wait\<close>: the \<open>connect\<close> handler of a client socket
    at the same two points (it keeps \<open>head\<close>);
  \<^item> \<open>Connect_head\<close>: the handler at \<open>await offshore.queue.enqueue(REQUEST, head)\<close>;
  \<^item> \<open>Tunnel c linked closeArmed errorArmed\<close>: the listeners of an established
    tunnel. \<open>linked\<close> stands for \<open>onMessage\<close>, \<open>onOffshoreClose\<close> and
    \<open>onClientData\<close>, which \<open>cleanup\<close> removes together; the other two for the
    \<open>once\<close> listeners \<open>onClientClose\<close> and \<open>onClientError\<close>.

  \<open>immediates\<close> counts the pending \<open>setImmediate\<close> callbacks, \<open>headersSent\<close>
  lists the response objects whose headers were written. Sends are handed to the
  sender of the connection (previous sections): here a send is recorded in the
  trace and the settling of its promise is an event.
\<close>

type_synonym request_item = "nat \<times> bytes"

datatype task =
    Worker_send request_item
  | Worker_wait request_item
  | Connect_send nat bytes
  | Connect_wait nat bytes
  | Connect_head nat
  | Tunnel nat bool bool bool

text \<open>
  What the ship does, in order: a request handed to \<open>offshore.sendRequest\<close> by the
  scheduler; a client response written and ended from a \<open>RESPONSE\<close> payload
  (\<open>writeHead\<close>, \<open>write\<close>, \<open>end\<close>; when \<open>writeHead\<close> rejects the parsed status
  or headers the \<open>catch\<close> block ends the response with its 502 instead); the 502 of
  the \<open>catch\<close> block after a failed send or a link error; a \<open>REQUEST\<close> payload
  sent for a CONNECT client; bytes written to a CONNECT client's socket; the end of
  that socket.
\<close>

datatype action =
    Request_sent nat bytes
  | Respond nat bytes
  | Bad_gateway nat
  | Tunnel_sent nat bytes
  | Client_write nat bytes
  | Client_end nat

record ship =
  offshore :: link
  rq_queue :: "request_item list"
  processing :: bool
  tasks :: "task list"
  immediates :: nat
  headersSent :: "nat list"
  accepted :: nat
  trace :: "action list"

definition ship_new :: "string \<Rightarrow> nat \<Rightarrow> ship" where
  "ship_new h p =
     \<lparr>offshore = OffshoreConnection_new h p, rq_queue = [], processing = False,
      tasks = [], immediates = 0, headersSent = [], accepted = 0, trace = []\<rparr>"

definition set_inTunnel :: "bool \<Rightarrow> ship \<Rightarrow> ship" where
  "set_inTunnel b s = s\<lparr>offshore := (offshore s)\<lparr>inTunnel := b\<rparr>\<rparr>"

text \<open>\<open>processNext\<close>, up to its first \<open>await\<close>.\<close>

definition processNext :: "ship \<Rightarrow> ship" where
  "processNext s =
     (if processing s \<or> length (rq_queue s) = 0 \<or> inTunnel (offshore s) then s
      else case rq_queue s of
        [] \<Rightarrow> s
      | it # rest \<Rightarrow>
          s\<lparr>processing := True, rq_queue := rest,
            trace := trace s @ [Request_sent (fst it) (snd it)],
            tasks := tasks s @ [Worker_send it]\<rparr>)"

text \<open>\<open>RequestQueue.enqueue\<close>, called when a client request has been read.\<close>

definition rq_enqueue :: "bytes \<Rightarrow> ship \<Rightarrow> ship" where
  "rq_enqueue rawRequest s =
     processNext (s\<lparr>rq_queue := rq_queue s @ [(accepted s, rawRequest)],
                    accepted := Suc (accepted s)\<rparr>)"

text \<open>The \<open>finally\<close> block, the rest of the \<open>try\<close> block, and the \<open>catch\<close> block.\<close>

definition worker_finally :: "ship \<Rightarrow> ship" where
  "worker_finally s = s\<lparr>processing := False, immediates := Suc (immediates s)\<rparr>"

definition worker_respond :: "request_item \<Rightarrow> bytes \<Rightarrow> ship \<Rightarrow> ship" where
  "worker_respond it responseBuf s =
     worker_finally
       (if fst it \<in> set (headersSent s) then s
        else s\<lparr>trace := trace s @ [Respond (fst it) responseBuf],
               headersSent := headersSent s @ [fst it]\<rparr>)"

definition worker_catch :: "request_item \<Rightarrow> ship \<Rightarrow> ship" where
  "worker_catch it s =
     worker_finally
       (if fst it \<in> set (headersSent s) then s
        else s\<lparr>trace := trace s @ [Bad_gateway (fst it)],
               headersSent := headersSent s @ [fst it]\<rparr>)"

text \<open>The \<open>catch\<close> block of the \<open>connect\<close> handler.\<close>

definition connect_catch :: "nat \<Rightarrow> ship \<Rightarrow> ship" where
  "connect_catch c s = set_inTunnel False (s\<lparr>trace := trace s @ [Client_end c]\<rparr>)"

definition ascii :: "string \<Rightarrow> bytes" where
  "ascii cs = map (\<lambda>ch. of_nat (of_char ch)) cs"

definition established :: bytes where
  "established = ascii ''HTTP/1.1 200 Connection Established'' @ [13, 10, 13, 10]"

text \<open>A function suspended on a send is resumed when the promise settles.\<close>

fun awaits_send :: "task \<Rightarrow> bool" where
  "awaits_send (Worker_send it) = True"
| "awaits_send (Connect_send c head) = True"
| "awaits_send (Connect_head c) = True"
| "awaits_send t = False"

fun resume_send :: "bool \<Rightarrow> task \<Rightarrow> ship \<Rightarrow> ship" where
  "resume_send ok (Worker_send it) s =
     (if ok then s\<lparr>tasks := tasks s @ [Worker_wait it]\<rparr> else worker_catch it s)"
| "resume_send ok (Connect_send c head) s =
     (if ok then s\<lparr>tasks := tasks s @ [Connect_wait c head]\<rparr> else connect_catch c s)"
| "resume_send ok (Connect_head c) s =
     (if ok then s\<lparr>tasks := tasks s @ [Tunnel c True True True]\<rparr> else connect_catch c s)"
| "resume_send ok t s = s"

definition send_settled_ship :: "nat \<Rightarrow> bool \<Rightarrow> ship \<Rightarrow> ship" where
  "send_settled_ship i ok s =
     (if i < length (tasks s) \<and> awaits_send (tasks s ! i)
      then resume_send ok (tasks s ! i)
             (s\<lparr>tasks := take i (tasks s) @ drop (Suc i) (tasks s)\<rparr>)
      else s)"

text \<open>
  \<open>waitForSingleResponse\<close>: the listener takes the first message of type
  \<open>RESPONSE\<close> and removes itself. The function waiting on it goes on with the
  payload: the scheduler writes the client's response; the \<open>connect\<close> handler tests
  the status line with the regular expression \<open>/^HTTP\/\d\.\d\s+200/i\<close>, which is
  the parameter \<open>is200\<close>.
\<close>

fun is_waiter :: "task \<Rightarrow> bool" where
  "is_waiter (Worker_wait it) = True"
| "is_waiter (Connect_wait c head) = True"
| "is_waiter t = False"

fun resume_response :: "(bytes \<Rightarrow> bool) \<Rightarrow> bytes \<Rightarrow> ship \<Rightarrow> task \<Rightarrow> ship" where
  "resume_response is200 resp s (Worker_wait it) = worker_respond it resp s"
| "resume_response is200 resp s (Connect_wait c head) =
     (if \<not> is200 resp
      then set_inTunnel False (s\<lparr>trace := trace s @ [Client_write c resp, Client_end c]\<rparr>)
      else if length head > 0
      then s\<lparr>trace := trace s @ [Client_write c established, Tunnel_sent c head],
             tasks := tasks s @ [Connect_head c]\<rparr>
      else s\<lparr>trace := trace s @ [Client_write c established],
             tasks := tasks s @ [Tunnel c True True True]\<rparr>)"
| "resume_response is200 resp s t = s"

fun resume_error :: "ship \<Rightarrow> task \<Rightarrow> ship" where
  "resume_error s (Worker_wait it) = worker_catch it s"
| "resume_error s (Connect_wait c head) = connect_catch c s"
| "resume_error s t = s"

text \<open>
  The messages one \<open>push\<close> emits. The listeners run while the decoder emits; the
  functions they resolve go on afterwards, in the order of their listeners. A
  tunnel's \<open>onMessage\<close> writes every non-empty \<open>RESPONSE\<close> payload to its client
  while \<open>inTunnel\<close> is set.
\<close>

fun tunnel_writes :: "message list \<Rightarrow> task \<Rightarrow> action list" where
  "tunnel_writes ms (Tunnel c True ca ea) =
     map (\<lambda>m. Client_write c (mpayload m))
       (filter (\<lambda>m. mtype m = RESPONSE \<and> length (mpayload m) > 0) ms)"
| "tunnel_writes ms t = []"

definition deliver_messages :: "(bytes \<Rightarrow> bool) \<Rightarrow> message list \<Rightarrow> ship \<Rightarrow> ship" where
  "deliver_messages is200 ms s =
     (case filter (\<lambda>m. mtype m = RESPONSE) ms of
        [] \<Rightarrow> s
      | m # rest \<Rightarrow>
          foldl (resume_response is200 (mpayload m))
            (s\<lparr>tasks := filter (\<lambda>t. \<not> is_waiter t) (tasks s),
               trace := trace s @
                 (if inTunnel (offshore s) then concat (map (tunnel_writes ms) (tasks s))
                  else [])\<rparr>)
            (filter is_waiter (tasks s)))"

text \<open>
  The connection emits \<open>error\<close>: every waiting function is rejected. (With no
  listener registered the \<open>emit\<close> itself throws and the process ends; nothing
  happens in the model.)
\<close>

definition deliver_error :: "ship \<Rightarrow> ship" where
  "deliver_error s =
     foldl resume_error
       (s\<lparr>tasks := filter (\<lambda>t. \<not> is_waiter t) (tasks s)\<rparr>)
       (filter is_waiter (tasks s))"

text \<open>The connection emits \<open>close\<close>: \<open>onOffshoreClose\<close> of every linked tunnel.\<close>

fun tunnel_offshore_close :: "ship \<Rightarrow> task \<Rightarrow> ship" where
  "tunnel_offshore_close s (Tunnel c True ca ea) =
     set_inTunnel False (s\<lparr>tasks := tasks s @ [Tunnel c False ca ea],
                            trace := trace s @ [Client_end c]\<rparr>)"
| "tunnel_offshore_close s t = s\<lparr>tasks := tasks s @ [t]\<rparr>"

definition deliver_close :: "ship \<Rightarrow> ship" where
  "deliver_close s = foldl tunnel_offshore_close (s\<lparr>tasks := []\<rparr>) (tasks s)"

text \<open>Events of a tunnelled client's socket: \<open>data\<close>, \<open>close\<close>, \<open>error\<close>.\<close>

fun tunnel_client_data :: "nat \<Rightarrow> bytes \<Rightarrow> task \<Rightarrow> action list" where
  "tunnel_client_data c d (Tunnel c' True ca ea) = (if c' = c then [Tunnel_sent c d] else [])"
| "tunnel_client_data c d t = []"

fun tunnel_client_close :: "nat \<Rightarrow> ship \<Rightarrow> task \<Rightarrow> ship" where
  "tunnel_client_close c s (Tunnel c' l True ea) =
     (if c' = c then set_inTunnel False (s\<lparr>tasks := tasks s @ [Tunnel c' False False ea]\<rparr>)
      else s\<lparr>tasks := tasks s @ [Tunnel c' l True ea]\<rparr>)"
| "tunnel_client_close c s t = s\<lparr>tasks := tasks s @ [t]\<rparr>"

fun tunnel_client_error :: "nat \<Rightarrow> ship \<Rightarrow> task \<Rightarrow> ship" where
  "tunnel_client_error c s (Tunnel c' l ca True) =
     (if c' = c then set_inTunnel False (s\<lparr>tasks := tasks s @ [Tunnel c' False ca False]\<rparr>)
      else s\<lparr>tasks := tasks s @ [Tunnel c' l ca True]\<rparr>)"
| "tunnel_client_error c s t = s\<lparr>tasks := tasks s @ [t]\<rparr>"

text \<open>
  The events of the ship: a client request read to its end; a CONNECT request
  (client socket, serialized request, \<open>head\<close>); the promise of the send of the
  \<open>i\<close>-th task settled; an event of a link socket or of the reconnect timer; a
  \<open>setImmediate\<close> callback; events of a CONNECT client's socket.
\<close>

datatype ship_event =
    Client_request bytes
  | Client_connect nat bytes bytes
  | Send_settled nat bool
  | Link link_event
  | Immediate
  | Client_data nat bytes
  | Client_close nat
  | Client_error nat

definition link_emits :: "link \<Rightarrow> link_event \<Rightarrow> message list" where
  "link_emits c ev = drop (length (emitted c)) (emitted (link_step c ev))"

fun link_signal :: "(bytes \<Rightarrow> bool) \<Rightarrow> link \<Rightarrow> link_event \<Rightarrow> ship \<Rightarrow> ship" where
  "link_signal is200 c (Sock_data n chunk) s = deliver_messages is200 (link_emits c (Sock_data n chunk)) s"
| "link_signal is200 c (Sock_error n) s = (if n < sockets_created c then deliver_error s else s)"
| "link_signal is200 c (Sock_close n) s = (if n < sockets_created c then deliver_close s else s)"
| "link_signal is200 c ev s = s"

fun ship_step :: "(bytes \<Rightarrow> bool) \<Rightarrow> ship \<Rightarrow> ship_event \<Rightarrow> ship" where
  "ship_step is200 s (Client_request rawRequest) = rq_enqueue rawRequest s"
| "ship_step is200 s (Client_connect c raw head) =
     (set_inTunnel True s)\<lparr>trace := trace s @ [Tunnel_sent c raw],
                            tasks := tasks s @ [Connect_send c head]\<rparr>"
| "ship_step is200 s (Send_settled i ok) = send_settled_ship i ok s"
| "ship_step is200 s (Link ev) =
     link_signal is200 (offshore s) ev (s\<lparr>offshore := link_step (offshore s) ev\<rparr>)"
| "ship_step is200 s Immediate =
     (if immediates s > 0 then processNext (s\<lparr>immediates := immediates s - 1\<rparr>) else s)"
| "ship_step is200 s (Client_data c d) =
     s\<lparr>trace := trace s @ concat (map (tunnel_client_data c d) (tasks s))\<rparr>"
| "ship_step is200 s (Client_close c) =
     foldl (tunnel_client_close c) (s\<lparr>tasks := []\<rparr>) (tasks s)"
| "ship_step is200 s (Client_error c) =
     foldl (tunnel_client_error c) (s\<lparr>tasks := []\<rparr>) (tasks s)"

definition ship_run :: "(bytes \<Rightarrow> bool) \<Rightarrow> ship \<Rightarrow> ship_event list \<Rightarrow> ship" where
  "ship_run is200 s evs = foldl (ship_step is200) s evs"

text \<open>
  Reading a trace: the link is free after \<open>k\<close> finished transactions, or busy with
  transaction \<open>k\<close>. A request may be sent only on a free link, it must be the
  \<open>k\<close>-th request accepted, with the bytes accepted; a busy link becomes free when
  the response of transaction \<open>k\<close> is ended. Any other action is refused.
\<close>

datatype link_use = Free nat | Busy nat

fun observe :: "bytes list \<Rightarrow> link_use option \<Rightarrow> action \<Rightarrow> link_use option" where
  "observe raws (Some (Free k)) (Request_sent i raw) =
     (if i = k \<and> k < length raws \<and> raw = raws ! k then Some (Busy k) else None)"
| "observe raws (Some (Busy k)) (Respond i resp) =
     (if i = k then Some (Free (Suc k)) else None)"
| "observe raws (Some (Busy k)) (Bad_gateway i) =
     (if i = k then Some (Free (Suc k)) else None)"
| "observe raws st a = None"

definition one_at_a_time :: "bytes list \<Rightarrow> action list \<Rightarrow> link_use option" where
  "one_at_a_time raws tr = foldl (observe raws) (Some (Free 0)) tr"

fun requests_of :: "ship_event list \<Rightarrow> bytes list" where
  "requests_of [] = []"
| "requests_of (Client_request rawRequest # evs) = rawRequest # requests_of evs"
| "requests_of (e # evs) = requests_of evs"

fun is_connect :: "ship_event \<Rightarrow> bool" where
  "is_connect (Client_connect c raw head) = True"
| "is_connect e = False"

fun is_failure :: "ship_event \<Rightarrow> bool" where
  "is_failure (Send_settled i ok) = (\<not> ok)"
| "is_failure (Link (Sock_error n)) = True"
| "is_failure e = False"

fun is_bad_gateway :: "action \<Rightarrow> bool" where
  "is_bad_gateway (Bad_gateway i) = True"
| "is_bad_gateway a = False"

fun is_request :: "ship_event \<Rightarrow> bool" where
  "is_request (Client_request rawRequest) = True"
| "is_request e = False"

fun is_worker :: "task \<Rightarrow> bool" where
  "is_worker (Worker_send it) = True"
| "is_worker (Worker_wait it) = True"
| "is_worker t = False"

fun is_request_sent :: "action \<Rightarrow> bool" where
  "is_request_sent (Request_sent i raw) = True"
| "is_request_sent a = False"

text \<open>
  The invariant of the scheduler on runs without CONNECT: after \<open>k\<close> finished
  transactions the scheduler is idle, or busy with request \<open>k\<close>; the queue holds
  the requests accepted after it, in order.
\<close>

definition queued :: "bytes list \<Rightarrow> nat \<Rightarrow> request_item list" where
  "queued raws k = map (\<lambda>i. (i, raws ! i)) [k..<length raws]"

definition idle_inv :: "bytes list \<Rightarrow> nat \<Rightarrow> ship \<Rightarrow> bool" where
  "idle_inv raws k s \<longleftrightarrow>
     accepted s = length raws \<and> \<not> inTunnel (offshore s) \<and> headersSent s = [0..<k]
     \<and> k \<le> length raws
     \<and> \<not> processing s \<and> tasks s = []
     \<and> one_at_a_time raws (trace s) = Some (Free k)
     \<and> rq_queue s = queued raws k"

definition busy_inv :: "bytes list \<Rightarrow> nat \<Rightarrow> ship \<Rightarrow> bool" where
  "busy_inv raws k s \<longleftrightarrow>
     accepted s = length raws \<and> \<not> inTunnel (offshore s) \<and> headersSent s = [0..<k]
     \<and> k < length raws
     \<and> processing s
     \<and> (tasks s = [Worker_send (k, raws ! k)] \<or> tasks s = [Worker_wait (k, raws ! k)])
     \<and> one_at_a_time raws (trace s) = Some (Busy k)
     \<and> rq_queue s = queued raws (Suc k)"

definition no_502 :: "ship \<Rightarrow> bool" where
  "no_502 s = list_all (\<lambda>a. \<not> is_bad_gateway a) (trace s)"

definition sched_inv :: "bytes list \<Rightarrow> bool \<Rightarrow> ship \<Rightarrow> bool" where
  "sched_inv raws ff s \<longleftrightarrow>
     (\<exists>k. idle_inv raws k s \<or> busy_inv raws k s) \<and> (ff \<longrightarrow> no_502 s)"

text \<open>
  A scheduler that nothing will wake: no transaction in progress, no
  \<open>setImmediate\<close> callback pending, no suspended \<open>processNext\<close>. Two states have
  the same queue when the second is such a state, holds the same requests and has
  sent no further request.
\<close>

definition stranded :: "ship \<Rightarrow> bool" where
  "stranded s \<longleftrightarrow> \<not> processing s \<and> immediates s = 0 \<and> filter is_worker (tasks s) = []"

definition same_queue :: "ship \<Rightarrow> ship \<Rightarrow> bool" where
  "same_queue s s' \<longleftrightarrow>
     stranded s' \<and> rq_queue s' = rq_queue s
     \<and> filter is_request_sent (trace s') = filter is_request_sent (trace s)"

section \<open>Offshore request executor (offshore_proxy.js)\<close>

text \<open>
  Payloads are handled as byte strings: the separators and the method name the code
  looks for are ASCII, and decoding UTF-8 neither creates nor removes an ASCII
  character, so \<open>indexOf\<close>, \<open>slice\<close> and \<open>split\<close> on the decoded text cut where
  they cut on the bytes.
\<close>

text \<open>\<open>text.indexOf(sep)\<close>: the first position at which \<open>sep\<close> occurs, if any.\<close>

fun indexOf :: "bytes \<Rightarrow> bytes \<Rightarrow> nat option" where
  "indexOf [] sep = (if sep = [] then Some 0 else None)"
| "indexOf (x # xs) sep =
     (if take (length sep) (x # xs) = sep then Some 0
      else map_option Suc (indexOf xs sep))"

text \<open>\<open>s.split(c)\<close> for a separator of one character.\<close>

fun split_char :: "byte \<Rightarrow> bytes \<Rightarrow> bytes list" where
  "split_char c [] = [[]]"
| "split_char c (x # xs) =
     (case split_char c xs of
        [] \<Rightarrow> [[]]
      | w # ws \<Rightarrow> if x = c then [] # w # ws else (x # w) # ws)"

text \<open>
  \<open>parseHttpRequest\<close>, as far as the dispatcher's CONNECT branch reads its result:
  \<open>head\<close> is the text before the first empty line, \<open>requestLine\<close> is
  \<open>head.split("\r\n")[0]\<close>, and \<open>method\<close> and \<open>path\<close> are the first two parts of
  \<open>requestLine.split(" ")\<close>; \<open>path\<close> is \<open>undefined\<close> when there is no second part.
\<close>

definition parseHttpRequest :: "bytes \<Rightarrow> bytes \<times> bytes option" where
  "parseHttpRequest buf =
     (let head = (case indexOf buf [13, 10, 13, 10] of None \<Rightarrow> buf | Some headerEnd \<Rightarrow> take headerEnd buf);
          requestLine = (case indexOf head [13, 10] of None \<Rightarrow> head | Some i \<Rightarrow> take i head)
      in case split_char 32 requestLine of
           [] \<Rightarrow> ([], None)
         | [method] \<Rightarrow> (method, None)
         | method # path # rest \<Rightarrow> (method, Some path))"

text \<open>
  The state of one connection's dispatcher: the variables \<open>inTunnel\<close> (here
  \<open>inTunnel_d\<close>) and \<open>tunnelUpstream\<close>, the number of sockets opened with
  \<open>net.connect\<close> (each carries the handlers registered on it), and what the
  dispatcher has done, in order.
\<close>

datatype dispatch_action =
    Queue_response bytes               \<comment> \<open>\<open>queue.enqueue(MessageType.RESPONSE, payload)\<close>\<close>
  | Direct_500                         \<comment> \<open>the \<open>catch\<close> block: \<open>sendMessage(socket, RESPONSE, raw)\<close> of a 500\<close>
  | Tunnel_write nat bytes             \<comment> \<open>\<open>tunnelUpstream.write(payload)\<close>\<close>
  | Net_connect nat bytes "bytes option" \<comment> \<open>\<open>net.connect({host, port})\<close> with \<open>host\<close> and \<open>portStr\<close>\<close>
  | Origin_fetch bytes                 \<comment> \<open>any other method: the request goes to the origin\<close>

record dispatcher =
  inTunnel_d :: bool
  tunnelUpstream :: "nat option"
  upstreams :: nat
  outbox :: "dispatch_action list"

definition dispatcher_new :: dispatcher where
  "dispatcher_new = \<lparr>inTunnel_d = False, tunnelUpstream = None, upstreams = 0, outbox = []\<rparr>"

text \<open>
  The CONNECT branch. \<open>req.path.split(":")\<close> throws when \<open>path\<close> is \<open>undefined\<close>;
  \<open>port\<close> is 443 when \<open>portStr\<close> is missing or empty and \<open>Number(portStr)\<close>
  otherwise, and \<open>net.connect\<close> throws on a port it does not accept: \<open>port_ok\<close>
  says which \<open>portStr\<close> give an accepted port. A throw leads to the \<open>catch\<close>
  block.
\<close>

definition connect_target :: "(bytes \<Rightarrow> bool) \<Rightarrow> bytes option \<Rightarrow> (bytes \<times> bytes option) option" where
  "connect_target port_ok path =
     (case path of
        None \<Rightarrow> None
      | Some p \<Rightarrow>
          (case split_char 58 p of
             [] \<Rightarrow> None
           | [h] \<Rightarrow> Some (h, None)
           | h # portStr # rest \<Rightarrow>
               if length portStr = 0 \<or> port_ok portStr then Some (h, Some portStr) else None))"

definition on_message :: "(bytes \<Rightarrow> bool) \<Rightarrow> message \<Rightarrow> dispatcher \<Rightarrow> dispatcher" where
  "on_message port_ok m s =
     (if mtype m \<noteq> REQUEST then s
      else if inTunnel_d s \<and> tunnelUpstream s \<noteq> None then
        (case tunnelUpstream s of
           None \<Rightarrow> s
         | Some u \<Rightarrow> s\<lparr>outbox := outbox s @ [Tunnel_write u (mpayload m)]\<rparr>)
      else
        (case parseHttpRequest (mpayload m) of
           (method, path) \<Rightarrow>
             if method = ascii ''CONNECT'' then
               (case connect_target port_ok path of
                  None \<Rightarrow> s\<lparr>outbox := outbox s @ [Direct_500]\<rparr>
                | Some (h, portStr) \<Rightarrow>
                    s\<lparr>upstreams := Suc (upstreams s),
                      outbox := outbox s @ [Net_connect (upstreams s) h portStr]\<rparr>)
             else s\<lparr>outbox := outbox s @ [Origin_fetch (mpayload m)]\<rparr>))"

text \<open>
  The handlers of an upstream socket: the connect callback, \<open>data\<close>, \<open>error\<close>
  (which enqueues \<open>Buffer.from("", "utf8")\<close>) and \<open>close\<close>.
\<close>

datatype dispatch_event =
    On_message message
  | Upstream_connect nat
  | Upstream_data nat bytes
  | Upstream_error nat
  | Upstream_close nat

fun dispatch_step :: "(bytes \<Rightarrow> bool) \<Rightarrow> dispatcher \<Rightarrow> dispatch_event \<Rightarrow> dispatcher" where
  "dispatch_step port_ok s (On_message m) = on_message port_ok m s"
| "dispatch_step port_ok s (Upstream_connect u) =
     (if u < upstreams s
      then s\<lparr>inTunnel_d := True, tunnelUpstream := Some u,
             outbox := outbox s @ [Queue_response established]\<rparr>
      else s)"
| "dispatch_step port_ok s (Upstream_data u d) =
     (if u < upstreams s then s\<lparr>outbox := outbox s @ [Queue_response d]\<rparr> else s)"
| "dispatch_step port_ok s (Upstream_error u) =
     (if u < upstreams s then s\<lparr>outbox := outbox s @ [Queue_response []]\<rparr> else s)"
| "dispatch_step port_ok s (Upstream_close u) =
     (if u < upstreams s then s\<lparr>inTunnel_d := False, tunnelUpstream := None\<rparr> else s)"

definition dispatch_run :: "(bytes \<Rightarrow> bool) \<Rightarrow> dispatcher \<Rightarrow> dispatch_event list \<Rightarrow> dispatcher" where
  "dispatch_run port_ok s evs = foldl (dispatch_step port_ok) s evs"

text \<open>
  The status line \<open>buildRawHttpResponse(502, "Bad Gateway", ...)\<close> writes, as the
  error handler of an origin request does; a payload is a 502 response when it
  starts with it.
\<close>

definition status_line_502 :: bytes where
  "status_line_502 = ascii ''HTTP/1.1 502 Bad Gateway''"

definition is_502_response :: "bytes \<Rightarrow> bool" where
  "is_502_response p = (take (length status_line_502) p = status_line_502)"

fun queues_502 :: "dispatch_action \<Rightarrow> bool" where
  "queues_502 (Queue_response p) = is_502_response p"
| "queues_502 a = False"
section \<open>Properties of the codec\<close>

lemma be32_decompose:
  fixes n :: nat
  shows "n div 16777216 * 16777216 + n div 65536 mod 256 * 65536
          + n div 256 mod 256 * 256 + n mod 256 = n"
proof -
  define m1 where "m1 = n div 256"
  define m2 where "m2 = m1 div 256"
  define m3 where "m3 = m2 div 256"
  have e2: "n div 65536 = m2"
    unfolding m2_def m1_def by (simp add: div_mult2_eq [symmetric])
  have e3: "n div 16777216 = m3"
    unfolding m3_def m2_def m1_def by (simp add: div_mult2_eq [symmetric])
  have a: "n = m1 * 256 + n mod 256" unfolding m1_def by simp
  have b: "m1 = m2 * 256 + m1 mod 256" unfolding m2_def by simp
  have c: "m2 = m3 * 256 + m2 mod 256" unfolding m3_def by simp
  have "m3 * 16777216 + m2 mod 256 * 65536 + m1 mod 256 * 256 + n mod 256 = n"
    using a b c by linarith
  then show ?thesis
    by (simp add: e2 e3 m1_def [symmetric])
qed

lemma readUInt32BE_writeUInt32BE:
  assumes "n < 4294967296"
  shows "readUInt32BE (writeUInt32BE n @ rest) 0 = n"
proof -
  have a: "unat (of_nat (n div 16777216) :: byte) = n div 16777216"
    using assms by (simp add: unat_of_nat)
  have b: "unat (of_nat (n div 65536) :: byte) = n div 65536 mod 256"
    by (simp add: unat_of_nat)
  have c: "unat (of_nat (n div 256) :: byte) = n div 256 mod 256"
    by (simp add: unat_of_nat)
  have d: "unat (of_nat n :: byte) = n mod 256"
    by (simp add: unat_of_nat)
  show ?thesis
    using be32_decompose [of n]
    by (simp add: readUInt32BE_def writeUInt32BE_def a b c d)
qed

lemma length_writeUInt32BE [simp]: "length (writeUInt32BE n) = 4"
  by (simp add: writeUInt32BE_def)

lemma parse_wait:
  "length buf < HEADER_LENGTH \<or> length buf < HEADER_LENGTH + readUInt32BE buf 0 \<Longrightarrow>
   parseAvailableFrames buf = ([], buf)"
  by (subst parseAvailableFrames.simps) auto

lemma parse_step:
  assumes "HEADER_LENGTH + readUInt32BE buf 0 \<le> length buf"
  shows "parseAvailableFrames buf =
           (Message (readUInt8 buf 4) (take (readUInt32BE buf 0) (drop HEADER_LENGTH buf))
              # fst (parseAvailableFrames (drop (HEADER_LENGTH + readUInt32BE buf 0) buf)),
            snd (parseAvailableFrames (drop (HEADER_LENGTH + readUInt32BE buf 0) buf)))"
proof -
  have rest: "(if length buf = HEADER_LENGTH + readUInt32BE buf 0 then []
               else subarray_from buf (HEADER_LENGTH + readUInt32BE buf 0))
                = drop (HEADER_LENGTH + readUInt32BE buf 0) buf"
    by (simp add: subarray_from_def)
  have g: "HEADER_LENGTH \<le> length buf" "\<not> length buf < HEADER_LENGTH + readUInt32BE buf 0"
    using assms by simp_all
  have pl: "subarray buf HEADER_LENGTH (HEADER_LENGTH + readUInt32BE buf 0)
              = take (readUInt32BE buf 0) (drop HEADER_LENGTH buf)"
    by (simp add: subarray_def)
  show ?thesis
    by (subst parseAvailableFrames.simps)
       (simp only: rest g pl if_True if_False case_prod_beta)
qed

lemma parse_frame:
  assumes "length p < 4294967296"
  shows "parseAvailableFrames (writeUInt32BE (length p) @ t # p @ rest) =
          (Message (uint t) p # fst (parseAvailableFrames rest), snd (parseAvailableFrames rest))"
proof -
  let ?buf = "writeUInt32BE (length p) @ t # p @ rest"
  have len: "readUInt32BE ?buf 0 = length p"
    using assms by (rule readUInt32BE_writeUInt32BE)
  have ty: "readUInt8 ?buf 4 = uint t"
    by (simp add: readUInt8_def nth_append)
  have pl: "take (length p) (drop HEADER_LENGTH ?buf) = p"
    by (simp add: HEADER_LENGTH_def)
  have rs: "drop (HEADER_LENGTH + length p) ?buf = rest"
    by (simp add: HEADER_LENGTH_def)
  have ge: "HEADER_LENGTH + readUInt32BE ?buf 0 \<le> length ?buf"
    unfolding len by (simp add: HEADER_LENGTH_def)
  show ?thesis
    using parse_step [OF ge] by (simp only: len ty pl rs)
qed

lemma parse_append:
  "parseAvailableFrames (xs @ ys) =
     (fst (parseAvailableFrames xs) @ fst (parseAvailableFrames (snd (parseAvailableFrames xs) @ ys)),
      snd (parseAvailableFrames (snd (parseAvailableFrames xs) @ ys)))"
proof (induction xs rule: parseAvailableFrames.induct)
  case (1 buf)
  show ?case
  proof (cases "HEADER_LENGTH \<le> length buf \<and> \<not> length buf < HEADER_LENGTH + readUInt32BE buf 0")
    case False
    then have "parseAvailableFrames buf = ([], buf)"
      by (intro parse_wait) auto
    then show ?thesis by simp
  next
    case True
    let ?total = "HEADER_LENGTH + readUInt32BE buf 0"
    let ?rest = "if length buf = ?total then [] else subarray_from buf ?total"
    have rest: "?rest = drop ?total buf"
      by (simp add: subarray_from_def)
    have l5: "5 \<le> length buf"
      using True by (simp add: HEADER_LENGTH_def)
    have hd: "readUInt32BE (buf @ ys) 0 = readUInt32BE buf 0"
      using l5 by (auto simp: readUInt32BE_def nth_append)
    have ty: "readUInt8 (buf @ ys) 4 = readUInt8 buf 4"
      using l5 by (auto simp: readUInt8_def nth_append)
    have tot: "?total \<le> length buf"
      using True by simp
    have tot2: "HEADER_LENGTH + readUInt32BE (buf @ ys) 0 \<le> length (buf @ ys)"
      unfolding hd using tot by simp
    have pl: "take (readUInt32BE buf 0) (drop HEADER_LENGTH (buf @ ys))
                = take (readUInt32BE buf 0) (drop HEADER_LENGTH buf)"
      using tot by simp
    have rest2: "drop ?total (buf @ ys) = drop ?total buf @ ys"
      using tot by simp
    have IH: "parseAvailableFrames (drop ?total buf @ ys) =
       (fst (parseAvailableFrames (drop ?total buf)) @
          fst (parseAvailableFrames (snd (parseAvailableFrames (drop ?total buf)) @ ys)),
        snd (parseAvailableFrames (snd (parseAvailableFrames (drop ?total buf)) @ ys)))"
      using "1.IH" True unfolding rest by simp
    show ?thesis
      unfolding parse_step [OF tot] parse_step [OF tot2] hd ty pl rest2
      by (simp only: IH fst_conv snd_conv append_Cons)
  qed
qed

lemma parse_Nil [simp]: "parseAvailableFrames [] = ([], [])"
  by (simp add: parse_wait HEADER_LENGTH_def)

lemma parse_idem:
  "parseAvailableFrames (snd (parseAvailableFrames buf)) = ([], snd (parseAvailableFrames buf))"
proof (induction buf rule: parseAvailableFrames.induct)
  case (1 buf)
  show ?case
  proof (cases "HEADER_LENGTH \<le> length buf \<and> \<not> length buf < HEADER_LENGTH + readUInt32BE buf 0")
    case False
    then have "parseAvailableFrames buf = ([], buf)"
      by (intro parse_wait) auto
    then show ?thesis by simp
  next
    case True
    then have tot: "HEADER_LENGTH + readUInt32BE buf 0 \<le> length buf" by simp
    have "(if length buf = HEADER_LENGTH + readUInt32BE buf 0 then []
               else subarray_from buf (HEADER_LENGTH + readUInt32BE buf 0))
                = drop (HEADER_LENGTH + readUInt32BE buf 0) buf"
      by (simp add: subarray_from_def)
    with "1.IH" True show ?thesis
      unfolding parse_step [OF tot] by simp
  qed
qed

lemma push_Buffer:
  "\<not> closed d \<Longrightarrow>
   push (Buffer c) d =
     Inr (d\<lparr>buffer := snd (parseAvailableFrames (buffer d @ c))\<rparr>,
          fst (parseAvailableFrames (buffer d @ c)))"
  by (cases "buffer d") (simp_all add: push_def case_prod_beta)

lemma push_all_Buffers:
  assumes "\<not> closed d" and "parseAvailableFrames (buffer d) = ([], buffer d)"
  shows "push_all (map Buffer cs) d =
           Inr (d\<lparr>buffer := snd (parseAvailableFrames (buffer d @ concat cs))\<rparr>,
                fst (parseAvailableFrames (buffer d @ concat cs)))"
  using assms
proof (induction cs arbitrary: d)
  case Nil
  then show ?case by simp
next
  case (Cons c cs)
  let ?d' = "d\<lparr>buffer := snd (parseAvailableFrames (buffer d @ c))\<rparr>"
  have step: "push (Buffer c) d = Inr (?d', fst (parseAvailableFrames (buffer d @ c)))"
    using Cons.prems(1) by (rule push_Buffer)
  have "\<not> closed ?d'" using Cons.prems(1) by simp
  moreover have "parseAvailableFrames (buffer ?d') = ([], buffer ?d')"
    by (simp add: parse_idem)
  ultimately have rest: "push_all (map Buffer cs) ?d' =
      Inr (?d'\<lparr>buffer := snd (parseAvailableFrames (buffer ?d' @ concat cs))\<rparr>,
           fst (parseAvailableFrames (buffer ?d' @ concat cs)))"
    by (rule Cons.IH)
  have split: "parseAvailableFrames ((buffer d @ c) @ concat cs) =
      (fst (parseAvailableFrames (buffer d @ c)) @
         fst (parseAvailableFrames (snd (parseAvailableFrames (buffer d @ c)) @ concat cs)),
       snd (parseAvailableFrames (snd (parseAvailableFrames (buffer d @ c)) @ concat cs)))"
    by (rule parse_append)
  show ?case
    using split by (simp add: step rest)
qed

text \<open>The bytes \<open>encodeMessage\<close> produces for a message, when it succeeds.\<close>

lemma encodeMessage_Inr:
  "encodeMessage t (Buffer p) = Inr B \<longleftrightarrow>
     (t = REQUEST \<or> t = RESPONSE) \<and> length p < 4294967296 \<and>
     B = writeUInt32BE (length p) @ of_int t # p"
  by (auto simp: encodeMessage_def writeUInt8_def)

text \<open>Beyond the 32-bit length field the header write throws.\<close>

lemma encodeMessage_oversize:
  "t = REQUEST \<or> t = RESPONSE \<Longrightarrow> length p \<ge> 4294967296 \<Longrightarrow>
   encodeMessage t (Buffer p) = Inl ERR_OUT_OF_RANGE"
  by (auto simp: encodeMessage_def)

lemma uint_type_byte:
  "t = REQUEST \<or> t = RESPONSE \<Longrightarrow> uint (of_int t :: byte) = t"
  by (auto simp: REQUEST_def RESPONSE_def)

lemma parse_encoded:
  assumes "map (\<lambda>m. encodeMessage (mtype m) (Buffer (mpayload m))) M = map Inr frames"
  shows "parseAvailableFrames (concat frames) = (M, [])"
  using assms
proof (induction M arbitrary: frames)
  case Nil
  then show ?case by simp
next
  case (Cons m M)
  from Cons.prems obtain f fs where fr: "frames = f # fs"
    and f: "encodeMessage (mtype m) (Buffer (mpayload m)) = Inr f"
    and fs: "map (\<lambda>m. encodeMessage (mtype m) (Buffer (mpayload m))) M = map Inr fs"
    by (cases frames) auto
  from f have ty: "mtype m = REQUEST \<or> mtype m = RESPONSE"
    and len: "length (mpayload m) < 4294967296"
    and fb: "f = writeUInt32BE (length (mpayload m)) @ of_int (mtype m) # mpayload m"
    by (simp_all add: encodeMessage_Inr)
  have "parseAvailableFrames (concat fs) = (M, [])"
    using fs by (rule Cons.IH)
  then show ?case
    using parse_frame [OF len, of "of_int (mtype m)" "concat fs"] uint_type_byte [OF ty]
    by (simp add: fr fb)
qed

lemma encode_all_total:
  assumes "\<forall>m\<in>set M. (mtype m = REQUEST \<or> mtype m = RESPONSE) \<and> length (mpayload m) < 4294967296"
  shows "map (\<lambda>m. encodeMessage (mtype m) (Buffer (mpayload m))) M =
           map Inr (map (\<lambda>m. writeUInt32BE (length (mpayload m)) @ of_int (mtype m) # mpayload m) M)"
  using assms by (induction M) (simp_all add: encodeMessage_Inr)

lemma decoder_new_facts:
  "\<not> closed FrameDecoder_new" "buffer FrameDecoder_new = []"
  "FrameDecoder_new\<lparr>buffer := []\<rparr> = FrameDecoder_new"
  by (simp_all add: FrameDecoder_new_def)

text \<open>
  C8. For a type in \<open>{0, 1}\<close> and a payload whose length fits the 32-bit length
  field, \<open>encodeMessage\<close> returns one buffer of \<open>5 + length\<close> bytes: the first
  four bytes are the payload length, big-endian, the fifth byte is the type, the rest
  is the payload unchanged. For any other type it throws \<open>RangeError\<close> (and fails
  whatever the payload argument is).
\<close>

theorem encodeMessage_layout:
  "((t = REQUEST \<or> t = RESPONSE) \<and> length p < 4294967296 \<longrightarrow>
      (\<exists>B. encodeMessage t (Buffer p) = Inr B \<and> length B = 5 + length p
         \<and> unat (B ! 0) * 16777216 + unat (B ! 1) * 65536 + unat (B ! 2) * 256 + unat (B ! 3)
             = length p
         \<and> uint (B ! 4) = t \<and> drop 5 B = p))
   \<and> (t \<noteq> REQUEST \<and> t \<noteq> RESPONSE \<longrightarrow>
        encodeMessage t (Buffer p) = Inl RangeError \<and> isl (encodeMessage t v))"
proof (intro conjI impI)
  assume a: "(t = REQUEST \<or> t = RESPONSE) \<and> length p < 4294967296"
  let ?B = "writeUInt32BE (length p) @ of_int t # p"
  have enc: "encodeMessage t (Buffer p) = Inr ?B"
    using a by (simp add: encodeMessage_Inr)
  have hdr: "readUInt32BE (writeUInt32BE (length p) @ of_int t # p) 0 = length p"
    using a by (intro readUInt32BE_writeUInt32BE) simp
  have "unat (?B ! 0) * 16777216 + unat (?B ! 1) * 65536 + unat (?B ! 2) * 256 + unat (?B ! 3)
          = length p"
    using hdr by (simp add: readUInt32BE_def numeral_2_eq_2)
  moreover have "uint (?B ! 4) = t"
    using a uint_type_byte [of t] by (simp add: nth_append)
  moreover have "length ?B = 5 + length p" "drop 5 ?B = p"
    by simp_all
  ultimately show "\<exists>B. encodeMessage t (Buffer p) = Inr B \<and> length B = 5 + length p
         \<and> unat (B ! 0) * 16777216 + unat (B ! 1) * 65536 + unat (B ! 2) * 256 + unat (B ! 3)
             = length p
         \<and> uint (B ! 4) = t \<and> drop 5 B = p"
    using enc by blast
next
  assume "t \<noteq> REQUEST \<and> t \<noteq> RESPONSE"
  then show "encodeMessage t (Buffer p) = Inl RangeError"
    by (simp add: encodeMessage_def)
next
  assume "t \<noteq> REQUEST \<and> t \<noteq> RESPONSE"
  then show "isl (encodeMessage t v)"
    by (cases v) (simp_all add: encodeMessage_def)
qed

theorem encodeMessage_layout_witness:
  "encodeMessage 1 (Buffer [7, 8]) = Inr [0, 0, 0, 2, 1, 7, 8]
   \<and> encodeMessage 2 (Buffer [7, 8]) = Inl RangeError"
proof -
  have h1: "((1::int) = REQUEST \<or> (1::int) = RESPONSE) \<and> length [7, 8 :: byte] < 4294967296"
    by (simp add: RESPONSE_def)
  have h2: "(2::int) \<noteq> REQUEST \<and> (2::int) \<noteq> RESPONSE"
    by (simp add: REQUEST_def RESPONSE_def)
  from encodeMessage_layout [of 1 "[7, 8]"] h1
  obtain B where "encodeMessage 1 (Buffer [7, 8]) = Inr B"
    by blast
  then have "encodeMessage 1 (Buffer [7, 8]) = Inr [0, 0, 0, 2, 1, 7, 8]"
    by (simp add: encodeMessage_def REQUEST_def RESPONSE_def writeUInt32BE_def writeUInt8_def)
  moreover from encodeMessage_layout [of 2 "[7, 8]"] h2
  have "encodeMessage 2 (Buffer [7, 8]) = Inl RangeError"
    by blast
  ultimately show ?thesis by simp
qed

text \<open>
  C2. Round trip: for a type in \<open>{0, 1}\<close> and any payload (empty allowed) within
  the 32-bit length field, \<open>encodeMessage\<close> succeeds and pushing its output into a
  fresh decoder as one chunk emits exactly the one message with that type and that
  payload, leaving the decoder's buffer empty.
\<close>

theorem roundtrip_single_chunk:
  assumes "t = REQUEST \<or> t = RESPONSE" and "length p < 4294967296"
  shows "\<exists>B. encodeMessage t (Buffer p) = Inr B \<and>
             push (Buffer B) FrameDecoder_new = Inr (FrameDecoder_new, [Message t p])"
proof -
  let ?B = "writeUInt32BE (length p) @ of_int t # p"
  have enc: "encodeMessage t (Buffer p) = Inr ?B"
    using assms by (simp add: encodeMessage_Inr)
  have "parseAvailableFrames (?B @ []) = (Message (uint (of_int t :: byte)) p # [], [])"
    using parse_frame [OF assms(2), of "of_int t" "[]"] by simp
  then have "parseAvailableFrames ?B = ([Message t p], [])"
    using uint_type_byte [OF assms(1)] by simp
  then have "push (Buffer ?B) FrameDecoder_new = Inr (FrameDecoder_new, [Message t p])"
    by (simp add: push_Buffer decoder_new_facts)
  with enc show ?thesis by blast
qed

theorem roundtrip_single_chunk_witness:
  "((0::int) = REQUEST \<or> (0::int) = RESPONSE) \<and> length [71, 69, 84 :: byte] < 4294967296
   \<and> encodeMessage 0 (Buffer [71, 69, 84]) = Inr [0, 0, 0, 3, 0, 71, 69, 84]
   \<and> push (Buffer [0, 0, 0, 3, 0, 71, 69, 84]) FrameDecoder_new
       = Inr (FrameDecoder_new, [Message 0 [71, 69, 84]])"
proof -
  have h1: "(0::int) = REQUEST \<or> (0::int) = RESPONSE"
    by (simp add: REQUEST_def)
  have h2: "length [71, 69, 84 :: byte] < 4294967296"
    by simp
  have e: "encodeMessage 0 (Buffer [71, 69, 84]) = Inr [0, 0, 0, 3, 0, 71, 69, 84]"
    by (simp add: encodeMessage_def REQUEST_def RESPONSE_def writeUInt32BE_def writeUInt8_def)
  from roundtrip_single_chunk [OF h1 h2] e
  have "push (Buffer [0, 0, 0, 3, 0, 71, 69, 84]) FrameDecoder_new
       = Inr (FrameDecoder_new, [Message 0 [71, 69, 84]])"
    by simp
  with h1 h2 e show ?thesis by simp
qed

text \<open>
  C3. Chunk invariance: let the messages \<open>M\<close> have types in \<open>{0, 1}\<close> and payloads
  within the 32-bit length field. Then every one of them encodes, and for every way
  of cutting the concatenation of the frames into chunks (empty chunks included),
  pushing the chunks in order into a fresh decoder emits exactly \<open>M\<close>, in order, and
  leaves nothing buffered. Two frames pushed as one chunk are the case
  \<open>chunks = [encode a @ encode b]\<close>.
\<close>

theorem chunk_invariance:
  assumes "\<forall>m\<in>set M. (mtype m = REQUEST \<or> mtype m = RESPONSE)
                      \<and> length (mpayload m) < 4294967296"
  shows "\<exists>frames.
           map (\<lambda>m. encodeMessage (mtype m) (Buffer (mpayload m))) M = map Inr frames \<and>
           (\<forall>chunks. concat chunks = concat frames \<longrightarrow>
              push_all (map Buffer chunks) FrameDecoder_new = Inr (FrameDecoder_new, M))"
proof -
  let ?frames = "map (\<lambda>m. writeUInt32BE (length (mpayload m)) @ of_int (mtype m) # mpayload m) M"
  have enc: "map (\<lambda>m. encodeMessage (mtype m) (Buffer (mpayload m))) M = map Inr ?frames"
    using assms by (rule encode_all_total)
  have dec: "parseAvailableFrames (concat ?frames) = (M, [])"
    using enc by (rule parse_encoded)
  have "push_all (map Buffer chunks) FrameDecoder_new = Inr (FrameDecoder_new, M)"
    if "concat chunks = concat ?frames" for chunks
  proof -
    have "push_all (map Buffer chunks) FrameDecoder_new =
            Inr (FrameDecoder_new
                   \<lparr>buffer := snd (parseAvailableFrames (buffer FrameDecoder_new @ concat chunks))\<rparr>,
                 fst (parseAvailableFrames (buffer FrameDecoder_new @ concat chunks)))"
      by (rule push_all_Buffers) (simp_all add: decoder_new_facts)
    then show ?thesis
      by (simp add: decoder_new_facts that dec)
  qed
  with enc show ?thesis by blast
qed

theorem chunk_invariance_witness:
  "push_all (map Buffer [[0, 0, 0], [2, 0, 65, 66, 0, 0], [], [0, 0, 1]]) FrameDecoder_new
     = Inr (FrameDecoder_new, [Message 0 [65, 66], Message 1 []])
   \<and> push_all (map Buffer [[0, 0, 0, 2, 0, 65, 66, 0, 0, 0, 0, 1]]) FrameDecoder_new
     = Inr (FrameDecoder_new, [Message 0 [65, 66], Message 1 []])"
proof -
  let ?M = "[Message 0 [65, 66], Message 1 []]"
  have h: "\<forall>m\<in>set ?M. (mtype m = REQUEST \<or> mtype m = RESPONSE)
                      \<and> length (mpayload m) < 4294967296"
    by (simp add: REQUEST_def RESPONSE_def)
  from chunk_invariance [OF h] obtain frames where
    enc: "map (\<lambda>m. encodeMessage (mtype m) (Buffer (mpayload m))) ?M = map Inr frames" and
    dec: "\<And>chunks. concat chunks = concat frames \<Longrightarrow>
            push_all (map Buffer chunks) FrameDecoder_new = Inr (FrameDecoder_new, ?M)"
    by blast
  have "map (\<lambda>m. encodeMessage (mtype m) (Buffer (mpayload m))) ?M
          = map Inr [[0, 0, 0, 2, 0, 65, 66], [0, 0, 0, 0, 1]]"
    by (simp add: encodeMessage_def REQUEST_def RESPONSE_def writeUInt32BE_def writeUInt8_def)
  with enc have fr: "frames = [[0, 0, 0, 2, 0, 65, 66], [0, 0, 0, 0, 1]]"
    by auto
  show ?thesis
    by (intro conjI dec) (simp_all add: fr)
qed

text \<open>
  C10. The decoder does not look at the type byte: a frame with any type byte from 0
  to 255 and a payload within the length field, pushed into a fresh decoder, is
  emitted as a message carrying that byte's value as its type, and pushing a buffer
  never throws, whatever the decoder's state. The encoder alone rejects a type
  other than 0 and 1.
\<close>

theorem decoder_accepts_any_type:
  "(length p < 4294967296 \<longrightarrow>
      push (Buffer (writeUInt32BE (length p) @ t # p)) FrameDecoder_new
        = Inr (FrameDecoder_new, [Message (uint t) p]))
   \<and> \<not> isl (push (Buffer c) d)
   \<and> (uint t \<noteq> REQUEST \<and> uint t \<noteq> RESPONSE \<longrightarrow>
        encodeMessage (uint t) (Buffer p) = Inl RangeError)"
proof (intro conjI impI)
  assume len: "length p < 4294967296"
  have "parseAvailableFrames (writeUInt32BE (length p) @ t # p @ []) = ([Message (uint t) p], [])"
    using parse_frame [OF len, of t "[]"] by simp
  then show "push (Buffer (writeUInt32BE (length p) @ t # p)) FrameDecoder_new
        = Inr (FrameDecoder_new, [Message (uint t) p])"
    by (simp add: push_Buffer decoder_new_facts)
next
  show "\<not> isl (push (Buffer c) d)"
    by (simp add: push_def case_prod_beta)
next
  assume "uint t \<noteq> REQUEST \<and> uint t \<noteq> RESPONSE"
  then show "encodeMessage (uint t) (Buffer p) = Inl RangeError"
    by (simp add: encodeMessage_def)
qed

theorem decoder_accepts_any_type_witness:
  "push (Buffer [0, 0, 0, 1, 255, 9]) FrameDecoder_new = Inr (FrameDecoder_new, [Message 255 [9]])
   \<and> encodeMessage 255 (Buffer [9]) = Inl RangeError"
proof -
  have h1: "length [9 :: byte] < 4294967296" by simp
  have h2: "uint (255 :: byte) \<noteq> REQUEST \<and> uint (255 :: byte) \<noteq> RESPONSE"
    by (simp add: REQUEST_def RESPONSE_def)
  have w: "writeUInt32BE (length [9 :: byte]) @ (255 :: byte) # [9] = [0, 0, 0, 1, 255, 9]"
    by (simp add: writeUInt32BE_def)
  from decoder_accepts_any_type [of "[9]" 255] h1 h2 w
  show ?thesis by simp
qed

text \<open>
  C9, as the code has it. \<open>close()\<close> empties the buffer and sets the closed flag;
  every later \<open>push\<close>, whatever its argument, returns normally without touching the
  decoder and emits nothing. No error is raised: the input is ignored silently.
\<close>

theorem push_after_close_ignored:
  "buffer (close d) = [] \<and> closed (close d)
   \<and> push chunk (close d) = Inr (close d, [])
   \<and> push_all chunks (close d) = Inr (close d, [])"
proof -
  have p: "push c (close d) = Inr (close d, [])" for c
    by (simp add: push_def close_def)
  have "push_all chunks (close d) = Inr (close d, [])"
    by (induction chunks) (simp_all add: p)
  with p show ?thesis
    by (simp add: close_def)
qed

text \<open>
  C9 as stated asks for an error when the decoder is fed after \<open>close()\<close>. Pushing a
  complete frame into a closed decoder returns normally instead.
\<close>

theorem push_after_close_counterexample:
  "\<not> isl (push (Buffer [0, 0, 0, 0, 1]) (close FrameDecoder_new))"
  by (simp add: push_def close_def)


section \<open>Properties of the serialized sender\<close>

lemma frames_of_append: "frames_of (xs @ ys) = frames_of xs @ frames_of ys"
  by (induction xs) (simp_all split: sum.splits)

lemma enqueued_append: "enqueued (xs @ ys) = enqueued xs @ enqueued ys"
  by (induction xs rule: enqueued.induct) simp_all

lemma send_loop_Nil: "queue s = [] \<Longrightarrow> send_loop s = s\<lparr>isSending := False\<rparr>"
  by (subst send_loop.simps) simp

lemma send_loop_Inl:
  "queue s = it # rest \<Longrightarrow> encodeMessage (fst it) (snd it) = Inl e \<Longrightarrow>
   send_loop s =
     send_loop (s\<lparr>queue := rest, outcomes := outcomes s @ [(it, Rejected_by_encode e)]\<rparr>)"
  by (subst send_loop.simps) simp

lemma send_loop_Inr:
  "queue s = it # rest \<Longrightarrow> encodeMessage (fst it) (snd it) = Inr framed \<Longrightarrow>
   send_loop s =
     s\<lparr>queue := rest, written := written s @ [framed], awaiting := awaiting s @ [it]\<rparr>"
  by (subst send_loop.simps) simp

lemma send_loop_stream:
  "written (send_loop s) @ frames_of (queue (send_loop s)) = written s @ frames_of (queue s)"
proof (induction s rule: send_loop.induct)
  case (1 s)
  show ?case
  proof (cases "queue s")
    case Nil
    then show ?thesis by (simp add: send_loop_Nil)
  next
    case (Cons it rest)
    show ?thesis
    proof (cases "encodeMessage (fst it) (snd it)")
      case (Inl e)
      with Cons "1.IH" [OF Cons Inl] show ?thesis
        by (simp add: send_loop_Inl [OF Cons Inl])
    next
      case (Inr framed)
      with Cons show ?thesis
        by (simp add: send_loop_Inr [OF Cons Inr])
    qed
  qed
qed

lemma send_loop_idle:
  assumes "awaiting s = [] \<and> isSending s"
  shows "length (awaiting (send_loop s)) \<le> 1
         \<and> isSending (send_loop s) = (awaiting (send_loop s) \<noteq> [])
         \<and> (isSending (send_loop s) \<or> queue (send_loop s) = [])
         \<and> socket (send_loop s) = socket s"
  using assms
proof (induction s rule: send_loop.induct)
  case (1 s)
  show ?case
  proof (cases "queue s")
    case Nil
    with "1.prems" show ?thesis by (simp add: send_loop_Nil)
  next
    case (Cons it rest)
    show ?thesis
    proof (cases "encodeMessage (fst it) (snd it)")
      case (Inl e)
      let ?s' = "s\<lparr>queue := rest, outcomes := outcomes s @ [(it, Rejected_by_encode e)]\<rparr>"
      have "awaiting ?s' = [] \<and> isSending ?s'"
        using "1.prems" by simp
      from "1.IH" [OF Cons Inl this] show ?thesis
        by (auto simp: send_loop_Inl [OF Cons Inl])
    next
      case (Inr framed)
      with Cons "1.prems" show ?thesis
        by (simp add: send_loop_Inr [OF Cons Inr])
    qed
  qed
qed

lemma sender_inv_new: "sender_inv [] (sender_new sock)"
  by (simp add: sender_inv_def sender_new_def)

lemma sender_inv_enqueue:
  assumes "sender_inv E s"
  shows "sender_inv (E @ [(t, p)]) (enqueue t p s)"
proof (cases "isSending s")
  case True
  with assms show ?thesis
    by (simp add: sender_inv_def enqueue_def frames_of_append)
next
  case False
  with assms have idle: "awaiting s = []" "queue s = []" "written s = frames_of E"
    by (auto simp: sender_inv_def)
  let ?s1 = "s\<lparr>queue := queue s @ [(t, p)], isSending := True\<rparr>"
  have e: "enqueue t p s = send_loop ?s1"
    using False by (simp add: enqueue_def dequeueAndSend_def)
  have "awaiting ?s1 = [] \<and> isSending ?s1" using idle by simp
  from send_loop_idle [OF this] send_loop_stream [of ?s1] idle show ?thesis
    by (auto simp: sender_inv_def e frames_of_append)
qed

lemma sender_inv_settled:
  assumes "sender_inv E s"
  shows "sender_inv E (send_settled i ok s)"
proof (cases "i < length (awaiting s)")
  case False
  with assms show ?thesis by (simp add: send_settled_def)
next
  case True
  with assms have i0: "i = 0" and one: "length (awaiting s) = 1"
    by (auto simp: sender_inv_def)
  let ?s1 = "s\<lparr>awaiting := take i (awaiting s) @ drop (Suc i) (awaiting s),
               outcomes := outcomes s @
                 [(awaiting s ! i, if ok then Resolved else Rejected_by_socket)]\<rparr>"
  have e: "send_settled i ok s = send_loop ?s1"
    using True by (simp add: send_settled_def)
  have "awaiting ?s1 = [] \<and> isSending ?s1"
    using i0 one assms by (auto simp: sender_inv_def)
  from send_loop_idle [OF this] send_loop_stream [of ?s1] assms show ?thesis
    unfolding e by (auto simp: sender_inv_def)
qed

lemma sender_run_snoc:
  "sender_run sock (evs @ [e]) = sender_step (sender_run sock evs) e"
  by (simp add: sender_run_def)

lemma sender_inv_run: "sender_inv (enqueued evs) (sender_run sock evs)"
proof (induction evs rule: rev_induct)
  case Nil
  show ?case by (simp add: sender_run_def sender_inv_new)
next
  case (snoc e evs)
  show ?case
  proof (cases e)
    case (Enqueue t p)
    with snoc show ?thesis
      by (simp add: sender_run_snoc enqueued_append sender_inv_enqueue)
  next
    case (Settled i ok)
    with snoc show ?thesis
      by (simp add: sender_run_snoc enqueued_append sender_inv_settled)
  qed
qed

text \<open>
  C4. After any sequence of \<open>enqueue\<close> calls and settled sends on one
  \<open>MessageSendQueue\<close>: at most one \<open>sendMessage\<close> is pending, and exactly when
  \<open>isSending\<close> is set; an idle queue holds no item; and the buffers handed to
  \<open>socket.write\<close> so far, followed by the frames of the items still queued, are the
  frames of the enqueued items in enqueue order. So the byte stream given to the
  socket is a concatenation of whole frames in enqueue order: no frame is split,
  interleaved with another or reordered.
\<close>

theorem sender_one_at_a_time_in_order:
  "length (awaiting (sender_run sock evs)) \<le> 1
   \<and> isSending (sender_run sock evs) = (awaiting (sender_run sock evs) \<noteq> [])
   \<and> (isSending (sender_run sock evs) \<or> queue (sender_run sock evs) = [])
   \<and> written (sender_run sock evs) @ frames_of (queue (sender_run sock evs))
        = frames_of (enqueued evs)
   \<and> concat (written (sender_run sock evs))
        = concat (take (length (written (sender_run sock evs))) (frames_of (enqueued evs)))"
proof -
  have inv: "sender_inv (enqueued evs) (sender_run sock evs)"
    by (rule sender_inv_run)
  then have w: "written (sender_run sock evs) @ frames_of (queue (sender_run sock evs))
        = frames_of (enqueued evs)"
    by (simp add: sender_inv_def)
  have "take (length (written (sender_run sock evs))) (frames_of (enqueued evs))
          = written (sender_run sock evs)"
    by (simp add: w [symmetric])
  with inv w show ?thesis
    by (auto simp: sender_inv_def)
qed

lemma sender_example:
  "written (sender_run 0 [Enqueue 0 (Buffer [65]), Enqueue 0 (Buffer [66, 67]), Settled 0 True])
     = [[0, 0, 0, 1, 0, 65], [0, 0, 0, 2, 0, 66, 67]]"
  by (simp add: sender_run_def sender_new_def enqueue_def dequeueAndSend_def send_settled_def
      send_loop.simps encodeMessage_def REQUEST_def RESPONSE_def writeUInt32BE_def writeUInt8_def)


section \<open>Properties of the link manager\<close>

lemma connect_keeps_decoder: "decoder (connect c) = decoder c"
  by (simp add: connect_def)

lemma connect_fresh_queue:
  "oc_queue (connect c) = Some (MessageSendQueue_new (sockets_created c))
   \<and> oc_socket (connect c) = Some (sockets_created c)"
  by (simp add: connect_def)

lemma close_arms_reconnect:
  "n < sockets_created c \<Longrightarrow> timers (link_step c (Sock_close n)) = timers c @ [1000]"
  by simp

lemma parse_partial: "parseAvailableFrames [0, 0, 0, 2, 1, 65] = ([], [0, 0, 0, 2, 1, 65])"
  by (rule parse_wait) (simp add: HEADER_LENGTH_def readUInt32BE_def)

lemma parse_stale:
  "parseAvailableFrames [0, 0, 0, 2, 1, 65, 0, 0, 0, 1, 1, 66]
     = ([Message 1 [65, 0]], [0, 0, 1, 1, 66])"
proof -
  have a: "length [65, 0 :: byte] < 4294967296" by simp
  have b: "parseAvailableFrames [0, 0, 1, 1, 66] = ([], [0, 0, 1, 1, 66])"
    by (rule parse_wait) (simp add: HEADER_LENGTH_def readUInt32BE_def)
  have "parseAvailableFrames (writeUInt32BE (length [65, 0 :: byte]) @ 1 # [65, 0] @ [0, 0, 1, 1, 66])
          = ([Message 1 [65, 0]], [0, 0, 1, 1, 66])"
    unfolding parse_frame [OF a] b by simp
  then show ?thesis
    by (simp add: writeUInt32BE_def)
qed

text \<open>
  C7. \<open>_connect\<close> builds a new socket and a new \<open>MessageSendQueue\<close>, but the
  decoder is the one the constructor made. The link delivers the first six bytes of
  a frame and closes; the timer of 1000 ms fires and \<open>_connect\<close> runs. The old
  bytes are still in the decoder's buffer (while the queue is a fresh one on socket
  1), so the complete frame \<open>00 00 00 01 01 42\<close> that then arrives on the new
  link is emitted as a message with the payload \<open>41 00\<close>; a fresh decoder emits
  the payload \<open>42\<close>.
\<close>

theorem reconnect_keeps_decoder_buffer:
  "emitted (link_run (OffshoreConnection_new h p)
              [Sock_data 0 [0, 0, 0, 2, 1, 65], Sock_close 0, Timer_fired,
               Sock_data 1 [0, 0, 0, 1, 1, 66]])
     = [Message 1 [65, 0]]
   \<and> buffer (decoder (link_run (OffshoreConnection_new h p)
              [Sock_data 0 [0, 0, 0, 2, 1, 65], Sock_close 0, Timer_fired]))
     = [0, 0, 0, 2, 1, 65]
   \<and> oc_queue (link_run (OffshoreConnection_new h p)
              [Sock_data 0 [0, 0, 0, 2, 1, 65], Sock_close 0, Timer_fired])
     = Some (MessageSendQueue_new 1)
   \<and> push (Buffer [0, 0, 0, 1, 1, 66]) FrameDecoder_new
     = Inr (FrameDecoder_new, [Message 1 [66]])"
proof -
  have fresh: "parseAvailableFrames [0, 0, 0, 1, 1, 66] = ([Message 1 [66]], [])"
  proof -
    have a: "length [66 :: byte] < 4294967296" by simp
    have "parseAvailableFrames (writeUInt32BE (length [66 :: byte]) @ 1 # [66] @ [])
            = ([Message 1 [66]], [])"
      unfolding parse_frame [OF a] by simp
    then show ?thesis by (simp add: writeUInt32BE_def)
  qed
  show ?thesis
    by (simp add: link_run_def OffshoreConnection_new_def connect_def push_def
        FrameDecoder_new_def parse_partial parse_stale fresh)
qed


section \<open>Properties of the ship scheduler\<close>

lemma queued_Cons: "k < length raws \<Longrightarrow> queued raws k = (k, raws ! k) # queued raws (Suc k)"
  by (simp add: queued_def upt_conv_Cons)

lemma queued_end: "k \<ge> length raws \<Longrightarrow> queued raws k = []"
  by (simp add: queued_def)

lemma queued_snoc:
  "k \<le> length raws \<Longrightarrow> queued (raws @ [r]) k = queued raws k @ [(length raws, r)]"
  by (simp add: queued_def nth_append)

lemma observe_None [simp]: "foldl (observe raws) None tr = None"
  by (induction tr) simp_all

lemma observe_mono:
  "observe raws st a = Some x \<Longrightarrow> observe (raws @ raws2) st a = Some x"
  by (cases "(raws, st, a)" rule: observe.cases) (auto simp: nth_append split: if_splits)

lemma one_at_a_time_mono:
  "one_at_a_time raws tr = Some x \<Longrightarrow> one_at_a_time (raws @ raws2) tr = Some x"
proof (induction tr arbitrary: x rule: rev_induct)
  case Nil
  then show ?case by (simp add: one_at_a_time_def)
next
  case (snoc a tr)
  from snoc.prems obtain y where y: "one_at_a_time raws tr = Some y"
    by (cases "one_at_a_time raws tr") (auto simp: one_at_a_time_def)
  with snoc.prems have "observe raws (Some y) a = Some x"
    by (simp add: one_at_a_time_def)
  then have "observe (raws @ raws2) (Some y) a = Some x"
    by (rule observe_mono)
  with snoc.IH [OF y] show ?case
    by (simp add: one_at_a_time_def)
qed

lemma one_at_a_time_snoc:
  "one_at_a_time raws (tr @ [a]) = observe raws (one_at_a_time raws tr) a"
  by (simp add: one_at_a_time_def)

lemma inTunnel_link_step [simp]: "inTunnel (link_step c ev) = inTunnel c"
  by (cases ev) (auto simp: connect_def split: sum.splits list.splits)

text \<open>\<open>processNext\<close> on an idle and on a busy scheduler.\<close>

lemma processNext_idle:
  assumes "idle_inv raws k s"
  shows "if k < length raws then busy_inv raws k (processNext s)
         else idle_inv raws k (processNext s)"
proof (cases "k < length raws")
  case True
  then have q: "queued raws k = (k, raws ! k) # queued raws (Suc k)"
    by (rule queued_Cons)
  from assms True show ?thesis
    by (simp add: processNext_def idle_inv_def busy_inv_def one_at_a_time_snoc q)
next
  case False
  with assms have "rq_queue s = []"
    by (simp add: idle_inv_def queued_end)
  with assms False show ?thesis
    by (simp add: processNext_def)
qed

lemma processNext_busy: "busy_inv raws k s \<Longrightarrow> processNext s = s"
  by (simp add: processNext_def busy_inv_def)

text \<open>The end of a transaction, by a response or by the \<open>catch\<close> block.\<close>

lemma worker_respond_done:
  assumes "busy_inv raws k s"
  shows "idle_inv raws (Suc k) (worker_respond (k, raws ! k) resp (s\<lparr>tasks := []\<rparr>))"
  using assms
  by (simp add: busy_inv_def idle_inv_def worker_respond_def worker_finally_def
      one_at_a_time_snoc)

lemma worker_catch_done:
  assumes "busy_inv raws k s"
  shows "idle_inv raws (Suc k) (worker_catch (k, raws ! k) (s\<lparr>tasks := []\<rparr>))"
  using assms
  by (simp add: busy_inv_def idle_inv_def worker_catch_def worker_finally_def
      one_at_a_time_snoc)

lemma idle_inv_accept:
  assumes "idle_inv raws k s"
  shows "idle_inv (raws @ [r]) k
           (s\<lparr>rq_queue := rq_queue s @ [(accepted s, r)], accepted := Suc (accepted s)\<rparr>)"
  using assms by (simp add: idle_inv_def queued_snoc one_at_a_time_mono)

lemma busy_inv_accept:
  assumes "busy_inv raws k s"
  shows "busy_inv (raws @ [r]) k
           (s\<lparr>rq_queue := rq_queue s @ [(accepted s, r)], accepted := Suc (accepted s)\<rparr>)"
  using assms by (auto simp: busy_inv_def queued_snoc one_at_a_time_mono nth_append)

lemma processNext_trace_no_502: "no_502 (processNext s) = no_502 s"
  by (auto simp: processNext_def no_502_def split: list.splits)

lemma step_request:
  assumes "sched_inv raws ff s"
  shows "sched_inv (raws @ [r]) ff (ship_step is200 s (Client_request r))"
proof -
  let ?s1 = "s\<lparr>rq_queue := rq_queue s @ [(accepted s, r)], accepted := Suc (accepted s)\<rparr>"
  have n: "ff \<longrightarrow> no_502 (processNext ?s1)"
    using assms by (simp add: processNext_trace_no_502 sched_inv_def) (simp add: no_502_def)
  from assms obtain k where "idle_inv raws k s \<or> busy_inv raws k s"
    by (auto simp: sched_inv_def)
  then show ?thesis
  proof
    assume "idle_inv raws k s"
    then have i: "idle_inv (raws @ [r]) k ?s1" by (rule idle_inv_accept)
    then have "k < length (raws @ [r])"
      using \<open>idle_inv raws k s\<close> by (simp add: idle_inv_def)
    with processNext_idle [OF i] have "busy_inv (raws @ [r]) k (processNext ?s1)"
      by simp
    with n show ?thesis
      by (auto simp: sched_inv_def rq_enqueue_def)
  next
    assume "busy_inv raws k s"
    then have b: "busy_inv (raws @ [r]) k ?s1" by (rule busy_inv_accept)
    with processNext_busy [OF b] n show ?thesis
      by (auto simp: sched_inv_def rq_enqueue_def)
  qed
qed

lemma step_immediate:
  assumes "sched_inv raws ff s"
  shows "sched_inv raws ff (ship_step is200 s Immediate)"
proof (cases "immediates s > 0")
  case False
  with assms show ?thesis by simp
next
  case True
  let ?s1 = "s\<lparr>immediates := immediates s - 1\<rparr>"
  have n: "ff \<longrightarrow> no_502 (processNext ?s1)"
    using assms by (simp add: processNext_trace_no_502 sched_inv_def) (simp add: no_502_def)
  from assms obtain k where "idle_inv raws k s \<or> busy_inv raws k s"
    by (auto simp: sched_inv_def)
  then show ?thesis
  proof
    assume "idle_inv raws k s"
    then have i: "idle_inv raws k ?s1" by (simp add: idle_inv_def)
    from processNext_idle [OF i] n True show ?thesis
      by (auto simp: sched_inv_def split: if_splits)
  next
    assume "busy_inv raws k s"
    then have b: "busy_inv raws k ?s1" by (simp add: busy_inv_def)
    with processNext_busy [OF b] n True show ?thesis
      by (auto simp: sched_inv_def)
  qed
qed

lemma step_send_settled:
  assumes "sched_inv raws ff s"
  shows "sched_inv raws (ff \<and> ok) (ship_step is200 s (Send_settled i ok))"
proof -
  from assms obtain k where "idle_inv raws k s \<or> busy_inv raws k s"
    by (auto simp: sched_inv_def)
  then show ?thesis
  proof
    assume "idle_inv raws k s"
    then have "ship_step is200 s (Send_settled i ok) = s"
      by (simp add: send_settled_ship_def idle_inv_def)
    with assms show ?thesis by (auto simp: sched_inv_def)
  next
    assume b: "busy_inv raws k s"
    then consider (send) "tasks s = [Worker_send (k, raws ! k)]"
      | (wait) "tasks s = [Worker_wait (k, raws ! k)]"
      by (auto simp: busy_inv_def)
    then show ?thesis
    proof cases
      case wait
      then have "ship_step is200 s (Send_settled i ok) = s"
        by (cases i) (simp_all add: send_settled_ship_def)
      with assms show ?thesis by (auto simp: sched_inv_def)
    next
      case send
      show ?thesis
      proof (cases "i = 0")
        case False
        with send have "ship_step is200 s (Send_settled i ok) = s"
          by (simp add: send_settled_ship_def)
        with assms show ?thesis by (auto simp: sched_inv_def)
      next
        case True
        show ?thesis
        proof (cases ok)
          case True
          have e: "ship_step is200 s (Send_settled i ok) = s\<lparr>tasks := [Worker_wait (k, raws ! k)]\<rparr>"
            using send \<open>i = 0\<close> True by (simp add: send_settled_ship_def)
          have "busy_inv raws k (s\<lparr>tasks := [Worker_wait (k, raws ! k)]\<rparr>)"
            using b by (simp add: busy_inv_def)
          with assms show ?thesis
            unfolding e by (auto simp: sched_inv_def no_502_def)
        next
          case False
          have e: "ship_step is200 s (Send_settled i ok)
                     = worker_catch (k, raws ! k) (s\<lparr>tasks := []\<rparr>)"
            using send \<open>i = 0\<close> False by (simp add: send_settled_ship_def)
          from worker_catch_done [OF b] False show ?thesis
            unfolding e by (auto simp: sched_inv_def)
        qed
      qed
    qed
  qed
qed

lemma idle_inv_cong:
  assumes "idle_inv raws k s"
    and "accepted s' = accepted s" "inTunnel (offshore s') = inTunnel (offshore s)"
    and "headersSent s' = headersSent s" "processing s' = processing s" "tasks s' = tasks s"
    and "trace s' = trace s" "rq_queue s' = rq_queue s"
  shows "idle_inv raws k s'"
  using assms by (simp add: idle_inv_def)

lemma busy_inv_cong:
  assumes "busy_inv raws k s"
    and "accepted s' = accepted s" "inTunnel (offshore s') = inTunnel (offshore s)"
    and "headersSent s' = headersSent s" "processing s' = processing s" "tasks s' = tasks s"
    and "trace s' = trace s" "rq_queue s' = rq_queue s"
  shows "busy_inv raws k s'"
  using assms by (simp add: busy_inv_def)

lemma link_signal_idle:
  assumes "tasks s = []"
  shows "link_signal is200 c ev s = s \<or> link_signal is200 c ev s = s\<lparr>tasks := [], trace := trace s @ []\<rparr>
         \<or> link_signal is200 c ev s = s\<lparr>tasks := []\<rparr>"
  by (cases ev)
     (simp_all add: assms deliver_messages_def deliver_error_def deliver_close_def
        split: list.splits)

lemma step_idle_other:
  assumes "idle_inv raws k s"
    and "e = Link ev \<or> e = Client_data c d \<or> e = Client_close c \<or> e = Client_error c"
  shows "idle_inv raws k (ship_step is200 s e) \<and> trace (ship_step is200 s e) = trace s"
proof -
  have t: "tasks s = []"
    using assms(1) by (simp add: idle_inv_def)
  from assms(2) show ?thesis
  proof (elim disjE)
    assume e: "e = Link ev"
    let ?s1 = "s\<lparr>offshore := link_step (offshore s) ev\<rparr>"
    have i1: "idle_inv raws k ?s1"
      using assms(1) by (simp add: idle_inv_def)
    have t1: "tasks ?s1 = []" using t by simp
    from link_signal_idle [OF t1, of is200 "offshore s" ev] i1 show ?thesis
      unfolding e by (auto simp: idle_inv_def simp del: link_step.simps)
  qed (use assms(1) t in \<open>simp_all add: idle_inv_def\<close>)
qed

lemma link_signal_busy_send:
  assumes "tasks s = [Worker_send it]"
  shows "link_signal is200 c ev s = s \<or> link_signal is200 c ev s = s\<lparr>tasks := [Worker_send it], trace := trace s @ []\<rparr>
         \<or> link_signal is200 c ev s = s\<lparr>tasks := [Worker_send it]\<rparr>"
  by (cases ev)
     (simp_all add: assms deliver_messages_def deliver_error_def deliver_close_def
        split: list.splits)

lemma step_busy_send_other:
  assumes "busy_inv raws k s" and "tasks s = [Worker_send (k, raws ! k)]"
    and "e = Link ev \<or> e = Client_data c d \<or> e = Client_close c \<or> e = Client_error c"
  shows "busy_inv raws k (ship_step is200 s e) \<and> trace (ship_step is200 s e) = trace s"
proof -
  note t = assms(2)
  from assms(3) show ?thesis
  proof (elim disjE)
    assume e: "e = Link ev"
    let ?s1 = "s\<lparr>offshore := link_step (offshore s) ev\<rparr>"
    have i1: "busy_inv raws k ?s1"
      using assms(1) by (simp add: busy_inv_def)
    have t1: "tasks ?s1 = [Worker_send (k, raws ! k)]" using t by simp
    from link_signal_busy_send [OF t1, of is200 "offshore s" ev] i1 show ?thesis
      unfolding e by (auto simp: busy_inv_def simp del: link_step.simps)
  qed (use assms(1) t in \<open>simp_all add: busy_inv_def\<close>)
qed

text \<open>A waiting scheduler: a response ends the transaction, an error ends it with 502.\<close>

lemma link_signal_busy_wait:
  assumes "tasks s = [Worker_wait it]" and "\<not> inTunnel (offshore s)"
  shows "link_signal is200 c ev s = s
         \<or> link_signal is200 c ev s = s\<lparr>tasks := [Worker_wait it]\<rparr>
         \<or> (\<exists>resp. link_signal is200 c ev s = worker_respond it resp (s\<lparr>tasks := [], trace := trace s @ []\<rparr>))
         \<or> ((\<exists>n. ev = Sock_error n) \<and> link_signal is200 c ev s = worker_catch it (s\<lparr>tasks := []\<rparr>))"
  by (cases ev)
     (auto simp: assms deliver_messages_def deliver_error_def deliver_close_def
        split: list.splits)

lemma step_busy_wait_other:
  assumes "busy_inv raws k s" and "tasks s = [Worker_wait (k, raws ! k)]"
    and "e = Link ev \<or> e = Client_data c d \<or> e = Client_close c \<or> e = Client_error c"
  shows "(busy_inv raws k (ship_step is200 s e) \<or> idle_inv raws (Suc k) (ship_step is200 s e))
         \<and> (no_502 s \<and> \<not> is_failure e \<longrightarrow> no_502 (ship_step is200 s e))"
proof -
  note t = assms(2)
  from assms(3) show ?thesis
  proof (elim disjE)
    assume e: "e = Link ev"
    let ?s1 = "s\<lparr>offshore := link_step (offshore s) ev\<rparr>"
    have i1: "busy_inv raws k ?s1"
      using assms(1) by (simp add: busy_inv_def)
    have t1: "tasks ?s1 = [Worker_wait (k, raws ! k)]" using t by simp
    have n1: "\<not> inTunnel (offshore ?s1)"
      using assms(1) by (simp add: busy_inv_def)
    have tr1: "trace ?s1 = trace s" by simp
    from link_signal_busy_wait [OF t1 n1, of is200 "offshore s" ev]
    consider (same) "ship_step is200 s e = ?s1"
      | (tasks) "ship_step is200 s e = ?s1\<lparr>tasks := [Worker_wait (k, raws ! k)]\<rparr>"
      | (resp) resp where "ship_step is200 s e
            = worker_respond (k, raws ! k) resp (?s1\<lparr>tasks := [], trace := trace ?s1 @ []\<rparr>)"
      | (err) n where "ev = Sock_error n"
          "ship_step is200 s e = worker_catch (k, raws ! k) (?s1\<lparr>tasks := []\<rparr>)"
      unfolding e by (auto simp del: link_step.simps)
    then show ?thesis
    proof cases
      case same
      with i1 show ?thesis by (simp add: no_502_def del: link_step.simps)
    next
      case tasks
      with i1 show ?thesis by (simp add: no_502_def busy_inv_def del: link_step.simps)
    next
      case resp
      have "idle_inv raws (Suc k) (worker_respond (k, raws ! k) resp (?s1\<lparr>tasks := []\<rparr>))"
        using i1 by (rule worker_respond_done)
      moreover have "no_502 s \<longrightarrow> no_502 (worker_respond (k, raws ! k) resp (?s1\<lparr>tasks := []\<rparr>))"
        by (simp add: no_502_def worker_respond_def worker_finally_def del: link_step.simps)
      ultimately show ?thesis
        unfolding resp by (simp del: link_step.simps)
    next
      case err
      have "idle_inv raws (Suc k) (worker_catch (k, raws ! k) (?s1\<lparr>tasks := []\<rparr>))"
        using i1 by (rule worker_catch_done)
      moreover have "is_failure e"
        using e err(1) by simp
      ultimately show ?thesis
        unfolding err(2) by (simp del: link_step.simps)
    qed
  qed (use assms(1) t in \<open>simp_all add: busy_inv_def no_502_def\<close>)
qed

lemma sched_step:
  assumes "sched_inv raws ff s" and "\<not> is_connect e"
  shows "sched_inv (raws @ requests_of [e]) (ff \<and> \<not> is_failure e) (ship_step is200 s e)"
proof -
  have other: "sched_inv raws (ff \<and> \<not> is_failure e) (ship_step is200 s e)"
    if e: "e = Link ev \<or> e = Client_data c d \<or> e = Client_close c \<or> e = Client_error c"
    for ev c d
  proof -
    from assms(1) obtain k where "idle_inv raws k s \<or> busy_inv raws k s"
      by (auto simp: sched_inv_def)
    then show ?thesis
    proof
      assume i: "idle_inv raws k s"
      from step_idle_other [OF i e, of is200] assms(1) show ?thesis
        by (auto simp: sched_inv_def no_502_def)
    next
      assume b: "busy_inv raws k s"
      then consider (send) "tasks s = [Worker_send (k, raws ! k)]"
        | (wait) "tasks s = [Worker_wait (k, raws ! k)]"
        by (auto simp: busy_inv_def)
      then show ?thesis
      proof cases
        case send
        from step_busy_send_other [OF b send e, of is200] assms(1) show ?thesis
          by (auto simp: sched_inv_def no_502_def)
      next
        case wait
        from step_busy_wait_other [OF b wait e, of is200] assms(1) show ?thesis
          by (auto simp: sched_inv_def)
      qed
    qed
  qed
  show ?thesis
  proof (cases e)
    case (Client_request r)
    with step_request [OF assms(1), of r is200] show ?thesis by simp
  next
    case (Client_connect c raw head)
    with assms(2) show ?thesis by simp
  next
    case (Send_settled i ok)
    with step_send_settled [OF assms(1), of ok is200 i] show ?thesis by simp
  next
    case (Link ev)
    with other [of ev] show ?thesis by simp
  next
    case Immediate
    with step_immediate [OF assms(1), of is200] show ?thesis by simp
  next
    case (Client_data c d)
    with other [of _ c d] show ?thesis by simp
  next
    case (Client_close c)
    with other [of _ c] show ?thesis by simp
  next
    case (Client_error c)
    with other [of _ c] show ?thesis by simp
  qed
qed

lemma requests_of_append: "requests_of (xs @ ys) = requests_of xs @ requests_of ys"
  by (induction xs rule: requests_of.induct) simp_all

lemma sched_inv_new: "sched_inv [] True (ship_new h p)"
proof -
  have "idle_inv [] 0 (ship_new h p)"
    by (simp add: idle_inv_def ship_new_def OffshoreConnection_new_def
        connect_def one_at_a_time_def queued_def)
  then show ?thesis
    by (auto simp: sched_inv_def no_502_def ship_new_def)
qed

lemma sched_inv_run:
  assumes "list_all (\<lambda>e. \<not> is_connect e) evs"
  shows "sched_inv (requests_of evs) (list_all (\<lambda>e. \<not> is_failure e) evs)
           (ship_run is200 (ship_new h p) evs)"
  using assms
proof (induction evs rule: rev_induct)
  case Nil
  show ?case by (simp add: ship_run_def sched_inv_new)
next
  case (snoc e evs)
  then have inv: "sched_inv (requests_of evs) (list_all (\<lambda>e. \<not> is_failure e) evs)
           (ship_run is200 (ship_new h p) evs)"
    and e: "\<not> is_connect e"
    by simp_all
  from sched_step [OF inv e, of is200] show ?case
    by (simp add: ship_run_def requests_of_append)
qed

text \<open>
  C1. In every run of the ship without CONNECT requests, whatever the link does, the
  trace of the ship is read by \<open>one_at_a_time\<close> without refusal: a request is
  handed to the link only when no transaction is outstanding, it is the next request
  in the order of acceptance, and the next one follows only after the client's
  response of this one has been written and ended. Responses therefore reach the
  clients in the order in which the requests were accepted. The link is busy exactly
  while \<open>processing\<close> is set. A transaction ends by the response built from the
  \<open>RESPONSE\<close> frame received, or, after a failed send or a link error, by the
  502 of the \<open>catch\<close> block; in a run without such failures every transaction
  ends by a received response.
\<close>

theorem scheduler_one_at_a_time:
  assumes "list_all (\<lambda>e. \<not> is_connect e) evs"
  shows "(\<exists>k. one_at_a_time (requests_of evs) (trace (ship_run is200 (ship_new h p) evs))
               = Some (if processing (ship_run is200 (ship_new h p) evs) then Busy k else Free k))
         \<and> (list_all (\<lambda>e. \<not> is_failure e) evs \<longrightarrow>
              list_all (\<lambda>a. \<not> is_bad_gateway a) (trace (ship_run is200 (ship_new h p) evs)))"
proof -
  from sched_inv_run [OF assms, of is200 h p]
  show ?thesis
    by (auto simp: sched_inv_def idle_inv_def busy_inv_def no_502_def)
qed

lemma ship_example_trace:
  "trace (ship_run (\<lambda>resp. False) (ship_new [] 0)
      [Client_request [71], Client_request [72], Send_settled 0 True,
       Link (Sock_data 0 [0, 0, 0, 1, 1, 65]), Immediate])
   = [Request_sent 0 [71], Respond 0 [65], Request_sent 1 [72]]"
proof -
  have fr: "parseAvailableFrames [0, 0, 0, 1, 1, 65] = ([Message 1 [65]], [])"
  proof -
    have a: "length [65 :: byte] < 4294967296" by simp
    have "parseAvailableFrames (writeUInt32BE (length [65 :: byte]) @ 1 # [65] @ [])
            = ([Message 1 [65]], [])"
      unfolding parse_frame [OF a] by simp
    then show ?thesis by (simp add: writeUInt32BE_def)
  qed
  show ?thesis
    by (simp add: ship_run_def ship_new_def OffshoreConnection_new_def connect_def
        rq_enqueue_def processNext_def send_settled_ship_def link_emits_def push_def
        FrameDecoder_new_def fr deliver_messages_def RESPONSE_def worker_respond_def
        worker_finally_def)
qed

theorem scheduler_one_at_a_time_witness:
  "trace (ship_run (\<lambda>resp. False) (ship_new [] 0)
      [Client_request [71], Client_request [72], Send_settled 0 True,
       Link (Sock_data 0 [0, 0, 0, 1, 1, 65]), Immediate])
     = [Request_sent 0 [71], Respond 0 [65], Request_sent 1 [72]]
   \<and> (\<exists>k. one_at_a_time [[71], [72]] [Request_sent 0 [71], Respond 0 [65], Request_sent 1 [72]]
         = Some (Busy k))
   \<and> list_all (\<lambda>a. \<not> is_bad_gateway a) [Request_sent 0 [71], Respond 0 [65], Request_sent 1 [72]]"
proof -
  let ?evs = "[Client_request [71], Client_request [72], Send_settled 0 True,
       Link (Sock_data 0 [0, 0, 0, 1, 1, 65]), Immediate]"
  let ?s = "ship_run (\<lambda>resp. False) (ship_new [] 0) ?evs"
  have h: "list_all (\<lambda>e. \<not> is_connect e) ?evs"
    by simp
  have f: "list_all (\<lambda>e. \<not> is_failure e) ?evs"
    by simp
  have p: "processing ?s"
    by (simp add: ship_run_def ship_new_def OffshoreConnection_new_def connect_def
        rq_enqueue_def processNext_def send_settled_ship_def link_emits_def push_def
        FrameDecoder_new_def deliver_messages_def RESPONSE_def worker_respond_def
        worker_finally_def split: list.splits prod.splits)
  from scheduler_one_at_a_time [OF h, of "\<lambda>resp. False" "[]" 0] f p
  show ?thesis
    by (simp add: ship_example_trace)
qed


section \<open>Leaving tunnel mode\<close>

text \<open>
  The first half of C6 holds: \<open>processNext\<close> starts nothing while \<open>inTunnel\<close>
  is set.
\<close>

lemma processNext_blocked: "inTunnel (offshore s) \<Longrightarrow> processNext s = s"
  by (simp add: processNext_def)

lemma parse_X: "parseAvailableFrames [0, 0, 0, 1, 1, 88] = ([Message 1 [88]], [])"
proof -
  have a: "length [88 :: byte] < 4294967296" by simp
  have "parseAvailableFrames (writeUInt32BE (length [88 :: byte]) @ 1 # [88] @ [])
          = ([Message 1 [88]], [])"
    unfolding parse_frame [OF a] by simp
  then show ?thesis by (simp add: writeUInt32BE_def)
qed

text \<open>
  C6, second half. A CONNECT request arrives and sets \<open>inTunnel\<close>; a client
  request is accepted and waits; the CONNECT request is sent and a \<open>RESPONSE\<close>
  frame comes back; the CONNECT client closes its socket. Whether the reply passes
  the status test (the tunnel is set up, then torn down by the client's close) or
  not (the handler clears the flag at once), at the end \<open>inTunnel\<close> is cleared
  and the accepted request is still in the queue: nothing is being processed, no
  \<open>setImmediate\<close> callback is pending, and no request has been sent. The code
  clears the flag by assignment only; \<open>processNext\<close> is not called.
\<close>

theorem tunnel_exit_leaves_request_queued:
  "\<not> inTunnel (offshore (ship_run is200 (ship_new h p)
        [Client_connect 7 raw [], Client_request req, Send_settled 0 True,
         Link (Sock_data 0 [0, 0, 0, 1, 1, 88]), Client_close 7]))
   \<and> rq_queue (ship_run is200 (ship_new h p)
        [Client_connect 7 raw [], Client_request req, Send_settled 0 True,
         Link (Sock_data 0 [0, 0, 0, 1, 1, 88]), Client_close 7]) = [(0, req)]
   \<and> \<not> processing (ship_run is200 (ship_new h p)
        [Client_connect 7 raw [], Client_request req, Send_settled 0 True,
         Link (Sock_data 0 [0, 0, 0, 1, 1, 88]), Client_close 7])
   \<and> immediates (ship_run is200 (ship_new h p)
        [Client_connect 7 raw [], Client_request req, Send_settled 0 True,
         Link (Sock_data 0 [0, 0, 0, 1, 1, 88]), Client_close 7]) = 0
   \<and> filter is_worker (tasks (ship_run is200 (ship_new h p)
        [Client_connect 7 raw [], Client_request req, Send_settled 0 True,
         Link (Sock_data 0 [0, 0, 0, 1, 1, 88]), Client_close 7])) = []
   \<and> filter is_request_sent (trace (ship_run is200 (ship_new h p)
        [Client_connect 7 raw [], Client_request req, Send_settled 0 True,
         Link (Sock_data 0 [0, 0, 0, 1, 1, 88]), Client_close 7])) = []"
  by (cases "is200 [88]")
     (simp_all add: ship_run_def ship_new_def OffshoreConnection_new_def connect_def
        set_inTunnel_def rq_enqueue_def processNext_def send_settled_ship_def link_emits_def
        push_def FrameDecoder_new_def parse_X deliver_messages_def RESPONSE_def)


lemma same_queue_trans: "same_queue a b \<Longrightarrow> same_queue b c \<Longrightarrow> same_queue a c"
  by (simp add: same_queue_def)

lemma same_queue_refl: "stranded s \<Longrightarrow> same_queue s s"
  by (simp add: same_queue_def)

lemma foldl_same_queue:
  assumes f: "\<And>s t. stranded s \<Longrightarrow> \<not> is_worker t \<Longrightarrow> same_queue s (f s t)"
    and "stranded s" and "filter is_worker ts = []"
  shows "same_queue s (foldl f s ts)"
  using assms(2,3)
proof (induction ts arbitrary: s)
  case Nil
  then show ?case by (simp add: same_queue_refl)
next
  case (Cons t ts)
  from Cons.prems have t: "\<not> is_worker t" and ts: "filter is_worker ts = []"
    by (auto split: if_splits)
  from f [OF Cons.prems(1) t] have a: "same_queue s (f s t)" .
  then have "stranded (f s t)" by (simp add: same_queue_def)
  from Cons.IH [OF this ts] a show ?case
    by (auto intro: same_queue_trans)
qed

lemma resume_response_same:
  "stranded s \<Longrightarrow> \<not> is_worker t \<Longrightarrow> same_queue s (resume_response is200 resp s t)"
  by (cases t) (auto simp: same_queue_def stranded_def set_inTunnel_def)

lemma resume_error_same:
  "stranded s \<Longrightarrow> \<not> is_worker t \<Longrightarrow> same_queue s (resume_error s t)"
  by (cases t) (auto simp: same_queue_def stranded_def set_inTunnel_def connect_catch_def)

lemma tunnel_offshore_close_same:
  "stranded s \<Longrightarrow> \<not> is_worker t \<Longrightarrow> same_queue s (tunnel_offshore_close s t)"
  by (cases "(s, t)" rule: tunnel_offshore_close.cases)
     (auto simp: same_queue_def stranded_def set_inTunnel_def)

lemma tunnel_client_close_same:
  "stranded s \<Longrightarrow> \<not> is_worker t \<Longrightarrow> same_queue s (tunnel_client_close c s t)"
  by (cases "(c, s, t)" rule: tunnel_client_close.cases)
     (auto simp: same_queue_def stranded_def set_inTunnel_def)

lemma tunnel_client_error_same:
  "stranded s \<Longrightarrow> \<not> is_worker t \<Longrightarrow> same_queue s (tunnel_client_error c s t)"
  by (cases "(c, s, t)" rule: tunnel_client_error.cases)
     (auto simp: same_queue_def stranded_def set_inTunnel_def)

lemma tunnel_writes_no_request: "filter is_request_sent (tunnel_writes ms t) = []"
  by (cases "(ms, t)" rule: tunnel_writes.cases) (simp_all add: filter_empty_conv)

lemma tunnel_writes_all_no_request:
  "filter is_request_sent (concat (map (tunnel_writes ms) ts)) = []"
  by (induction ts) (simp_all add: tunnel_writes_no_request)

lemma tunnel_client_data_no_request:
  "filter is_request_sent (concat (map (tunnel_client_data c d) ts)) = []"
proof (induction ts)
  case Nil
  show ?case by simp
next
  case (Cons t ts)
  have "filter is_request_sent (tunnel_client_data c d t) = []"
    by (cases "(c, d, t)" rule: tunnel_client_data.cases) simp_all
  with Cons show ?case by simp
qed

lemma filter_worker_waiters:
  "filter is_worker ts = [] \<Longrightarrow>
   filter is_worker (filter is_waiter ts) = []
   \<and> filter is_worker (filter (\<lambda>t. \<not> is_waiter t) ts) = []"
  by (induction ts) (auto split: if_splits)

lemma deliver_messages_same:
  assumes "stranded s"
  shows "same_queue s (deliver_messages is200 ms s)"
proof (cases "filter (\<lambda>m. mtype m = RESPONSE) ms")
  case Nil
  with assms show ?thesis by (simp add: deliver_messages_def same_queue_refl)
next
  case (Cons m rest)
  let ?s1 = "s\<lparr>tasks := filter (\<lambda>t. \<not> is_waiter t) (tasks s),
               trace := trace s @
                 (if inTunnel (offshore s) then concat (map (tunnel_writes ms) (tasks s))
                  else [])\<rparr>"
  have w: "filter is_worker (tasks s) = []"
    using assms by (simp add: stranded_def)
  have s1: "same_queue s ?s1"
    using assms filter_worker_waiters [OF w]
    by (simp add: same_queue_def stranded_def tunnel_writes_all_no_request)
  then have "stranded ?s1" by (simp add: same_queue_def)
  then have "same_queue ?s1 (foldl (resume_response is200 (mpayload m)) ?s1 (filter is_waiter (tasks s)))"
    using filter_worker_waiters [OF w]
    by (intro foldl_same_queue resume_response_same) simp_all
  with s1 show ?thesis
    unfolding deliver_messages_def Cons by (auto intro: same_queue_trans)
qed

lemma deliver_error_same:
  assumes "stranded s"
  shows "same_queue s (deliver_error s)"
proof -
  let ?s1 = "s\<lparr>tasks := filter (\<lambda>t. \<not> is_waiter t) (tasks s)\<rparr>"
  have w: "filter is_worker (tasks s) = []"
    using assms by (simp add: stranded_def)
  have s1: "same_queue s ?s1"
    using assms filter_worker_waiters [OF w] by (simp add: same_queue_def stranded_def)
  then have "stranded ?s1" by (simp add: same_queue_def)
  then have "same_queue ?s1 (foldl resume_error ?s1 (filter is_waiter (tasks s)))"
    using filter_worker_waiters [OF w]
    by (intro foldl_same_queue resume_error_same) simp_all
  with s1 show ?thesis
    unfolding deliver_error_def by (auto intro: same_queue_trans)
qed

lemma emptied_tasks_same: "stranded s \<Longrightarrow> same_queue s (s\<lparr>tasks := []\<rparr>)"
  by (simp add: same_queue_def stranded_def)

lemma deliver_close_same:
  assumes "stranded s"
  shows "same_queue s (deliver_close s)"
proof -
  have w: "filter is_worker (tasks s) = []"
    using assms by (simp add: stranded_def)
  have s1: "same_queue s (s\<lparr>tasks := []\<rparr>)"
    using assms by (rule emptied_tasks_same)
  then have "stranded (s\<lparr>tasks := []\<rparr>)" by (simp add: same_queue_def)
  then have "same_queue (s\<lparr>tasks := []\<rparr>) (foldl tunnel_offshore_close (s\<lparr>tasks := []\<rparr>) (tasks s))"
    using w by (intro foldl_same_queue tunnel_offshore_close_same) simp_all
  with s1 show ?thesis
    unfolding deliver_close_def by (auto intro: same_queue_trans)
qed

lemma link_signal_same:
  assumes "stranded s"
  shows "same_queue s (link_signal is200 c ev s)"
  by (cases ev)
     (simp_all add: assms deliver_messages_same deliver_error_same deliver_close_same
        same_queue_refl)

lemma nth_not_worker:
  "filter is_worker ts = [] \<Longrightarrow> i < length ts \<Longrightarrow> \<not> is_worker (ts ! i)"
  by (metis filter_empty_conv nth_mem)

lemma removed_not_worker:
  "filter is_worker ts = [] \<Longrightarrow> filter is_worker (take i ts @ drop (Suc i) ts) = []"
  by (auto simp: filter_empty_conv dest: in_set_takeD in_set_dropD)

lemma resume_send_same:
  "stranded s \<Longrightarrow> \<not> is_worker t \<Longrightarrow> same_queue s (resume_send ok t s)"
  by (cases t) (auto simp: same_queue_def stranded_def set_inTunnel_def connect_catch_def)

lemma send_settled_same:
  assumes "stranded s"
  shows "same_queue s (send_settled_ship i ok s)"
proof (cases "i < length (tasks s) \<and> awaits_send (tasks s ! i)")
  case False
  with assms show ?thesis
    by (auto simp: send_settled_ship_def same_queue_refl)
next
  case True
  let ?s1 = "s\<lparr>tasks := take i (tasks s) @ drop (Suc i) (tasks s)\<rparr>"
  have w: "filter is_worker (tasks s) = []"
    using assms by (simp add: stranded_def)
  have s1: "same_queue s ?s1"
    using assms removed_not_worker [OF w, of i] by (simp add: same_queue_def stranded_def)
  then have "stranded ?s1" by (simp add: same_queue_def)
  moreover have "\<not> is_worker (tasks s ! i)"
    using w True by (simp add: nth_not_worker)
  ultimately have "same_queue ?s1 (resume_send ok (tasks s ! i) ?s1)"
    by (rule resume_send_same)
  with s1 True show ?thesis
    by (auto simp: send_settled_ship_def intro: same_queue_trans)
qed

text \<open>
  With no transaction in progress and no \<open>setImmediate\<close> callback pending, nothing
  but a new client request makes the scheduler look at its queue: every other event
  leaves the queue as it is and sends no request.
\<close>

lemma stranded_step:
  assumes "stranded s" and "\<not> is_request e"
  shows "same_queue s (ship_step is200 s e)"
proof (cases e)
  case (Client_request r)
  with assms(2) show ?thesis by simp
next
  case (Client_connect c raw head)
  with assms(1) show ?thesis
    by (simp add: same_queue_def stranded_def set_inTunnel_def)
next
  case (Send_settled i ok)
  with send_settled_same [OF assms(1)] show ?thesis by simp
next
  case (Link ev)
  let ?s1 = "s\<lparr>offshore := link_step (offshore s) ev\<rparr>"
  have s1: "same_queue s ?s1"
    using assms(1) by (simp add: same_queue_def stranded_def)
  then have "stranded ?s1" by (simp add: same_queue_def)
  from link_signal_same [OF this, of is200 "offshore s" ev] s1 show ?thesis
    unfolding Link by (auto intro: same_queue_trans simp del: link_step.simps)
next
  case Immediate
  with assms(1) show ?thesis
    by (simp add: same_queue_def stranded_def)
next
  case (Client_data c d)
  with assms(1) show ?thesis
    by (simp add: same_queue_def stranded_def tunnel_client_data_no_request)
next
  case (Client_close c)
  have w: "filter is_worker (tasks s) = []"
    using assms(1) by (simp add: stranded_def)
  have s1: "same_queue s (s\<lparr>tasks := []\<rparr>)"
    using assms(1) by (rule emptied_tasks_same)
  then have "stranded (s\<lparr>tasks := []\<rparr>)" by (simp add: same_queue_def)
  then have "same_queue (s\<lparr>tasks := []\<rparr>)
               (foldl (tunnel_client_close c) (s\<lparr>tasks := []\<rparr>) (tasks s))"
    using w by (intro foldl_same_queue tunnel_client_close_same) simp_all
  with s1 show ?thesis
    unfolding Client_close by (auto intro: same_queue_trans)
next
  case (Client_error c)
  have w: "filter is_worker (tasks s) = []"
    using assms(1) by (simp add: stranded_def)
  have s1: "same_queue s (s\<lparr>tasks := []\<rparr>)"
    using assms(1) by (rule emptied_tasks_same)
  then have "stranded (s\<lparr>tasks := []\<rparr>)" by (simp add: same_queue_def)
  then have "same_queue (s\<lparr>tasks := []\<rparr>)
               (foldl (tunnel_client_error c) (s\<lparr>tasks := []\<rparr>) (tasks s))"
    using w by (intro foldl_same_queue tunnel_client_error_same) simp_all
  with s1 show ?thesis
    unfolding Client_error by (auto intro: same_queue_trans)
qed

lemma stranded_run:
  assumes "stranded s" and "list_all (\<lambda>e. \<not> is_request e) evs"
  shows "same_queue s (ship_run is200 s evs)"
  using assms(2)
proof (induction evs rule: rev_induct)
  case Nil
  show ?case using assms(1) by (simp add: ship_run_def same_queue_refl)
next
  case (snoc e evs)
  then have a: "same_queue s (ship_run is200 s evs)" and e: "\<not> is_request e"
    by simp_all
  from a have "stranded (ship_run is200 s evs)" by (simp add: same_queue_def)
  from stranded_step [OF this e, of is200] a show ?case
    by (auto simp: ship_run_def intro: same_queue_trans)
qed

section \<open>Properties of the offshore dispatcher\<close>

lemma connect_example_parse:
  "parseHttpRequest (ascii ''CONNECT example.invalid:443 HTTP/1.1'' @ [13, 10, 13, 10])
     = (ascii ''CONNECT'', Some (ascii ''example.invalid:443''))"
  by (simp add: parseHttpRequest_def ascii_def)

lemma connect_example_target:
  "connect_target (\<lambda>portStr. portStr = ascii ''443'') (Some (ascii ''example.invalid:443''))
     = Some (ascii ''example.invalid'', Some (ascii ''443''))"
  by (simp add: connect_target_def ascii_def)

lemma empty_is_not_502: "\<not> is_502_response []"
  by (simp add: is_502_response_def status_line_502_def ascii_def)

lemma empty_response_frame: "encodeMessage RESPONSE (Buffer []) = Inr [0, 0, 0, 0, 1]"
  by (simp add: encodeMessage_def RESPONSE_def REQUEST_def writeUInt32BE_def writeUInt8_def)

text \<open>
  C5, as the code has it. A \<open>REQUEST\<close> message arrives outside a tunnel, its
  payload parses to the method CONNECT, and \<open>net.connect\<close> is called for its
  target. When that socket then emits \<open>error\<close>, the dispatcher enqueues one
  \<open>RESPONSE\<close> with an empty payload and nothing else: on the wire the frame
  \<open>00 00 00 00 01\<close>, which is not a 502 response.
\<close>

theorem connect_failure_empty_response:
  assumes "mtype m = REQUEST"
    and "\<not> (inTunnel_d s \<and> tunnelUpstream s \<noteq> None)"
    and "parseHttpRequest (mpayload m) = (ascii ''CONNECT'', path)"
    and "connect_target port_ok path = Some (h, portStr)"
  shows "outbox (dispatch_run port_ok s [On_message m, Upstream_error (upstreams s)])
           = outbox s @ [Net_connect (upstreams s) h portStr, Queue_response []]
         \<and> encodeMessage RESPONSE (Buffer []) = Inr [0, 0, 0, 0, 1]
         \<and> \<not> is_502_response []"
proof -
  have "on_message port_ok m s =
          s\<lparr>upstreams := Suc (upstreams s),
            outbox := outbox s @ [Net_connect (upstreams s) h portStr]\<rparr>"
    using assms by (auto simp: on_message_def)
  then have "outbox (dispatch_run port_ok s [On_message m, Upstream_error (upstreams s)])
           = outbox s @ [Net_connect (upstreams s) h portStr, Queue_response []]"
    by (simp add: dispatch_run_def)
  with empty_is_not_502 empty_response_frame show ?thesis by simp
qed

theorem connect_failure_empty_response_witness:
  "outbox (dispatch_run (\<lambda>portStr. portStr = ascii ''443'') dispatcher_new
      [On_message (Message 0 (ascii ''CONNECT example.invalid:443 HTTP/1.1'' @ [13, 10, 13, 10])),
       Upstream_error 0])
     = [Net_connect 0 (ascii ''example.invalid'') (Some (ascii ''443'')), Queue_response []]"
proof -
  let ?m = "Message 0 (ascii ''CONNECT example.invalid:443 HTTP/1.1'' @ [13, 10, 13, 10])"
  have a: "mtype ?m = REQUEST"
    by (simp add: REQUEST_def)
  have b: "\<not> (inTunnel_d dispatcher_new \<and> tunnelUpstream dispatcher_new \<noteq> None)"
    by (simp add: dispatcher_new_def)
  have c: "parseHttpRequest (mpayload ?m) = (ascii ''CONNECT'', Some (ascii ''example.invalid:443''))"
    using connect_example_parse by simp
  from connect_failure_empty_response [OF a b c connect_example_target]
  show ?thesis
    by (simp add: dispatcher_new_def)
qed

text \<open>
  C5 as stated asks for a 502 response frame. After the CONNECT request for
  \<open>example.invalid:443\<close> and the failure of its connection, nothing the dispatcher
  has enqueued is a 502 response.
\<close>

theorem connect_failure_no_502_counterexample:
  "\<not> list_ex queues_502
       (outbox (dispatch_run (\<lambda>portStr. portStr = ascii ''443'') dispatcher_new
          [On_message (Message 0 (ascii ''CONNECT example.invalid:443 HTTP/1.1'' @ [13, 10, 13, 10])),
           Upstream_error 0]))"
proof -
  have "on_message (\<lambda>portStr. portStr = ascii ''443'')
          (Message 0 (ascii ''CONNECT example.invalid:443 HTTP/1.1'' @ [13, 10, 13, 10]))
          dispatcher_new
        = dispatcher_new\<lparr>upstreams := 1,
            outbox := [Net_connect 0 (ascii ''example.invalid'') (Some (ascii ''443''))]\<rparr>"
    using connect_example_parse connect_example_target
    by (simp add: on_message_def REQUEST_def dispatcher_new_def)
  then show ?thesis
    by (simp add: dispatch_run_def dispatcher_new_def empty_is_not_502)
qed

end
